theory Spec2Isabelle
  imports Complex_Main "HOL-Library.Multiset" "HOL-Library.Sublist"
begin

unbundle bit_operations_syntax

section \<open>Preliminaries\<close>

text \<open>
  The repository is a Go program. A Go \<^verbatim>\<open>int\<close> is a 64-bit two's complement integer:
  it is modelled as an \<open>int\<close>, and \<open>i64\<close> wraps the result of every addition and
  subtraction that can overflow. A Go string is a sequence of bytes (\<open>string\<close>), \<open>len\<close> is
  its length in bytes and \<open>slice\<close> is the slice expression \<^verbatim>\<open>s[lo:hi]\<close>, which panics
  out of range. \<^verbatim>\<open>float32\<close> and \<^verbatim>\<open>float64\<close> values are modelled as exact rationals:
  rounding, overflow to infinity and NaN are not represented. Run-time panics and returned
  errors are values of the type \<open>error\<close>.
\<close>

type_synonym float32 = rat

datatype error =
    SliceBoundsOutOfRange
  | IndexOutOfRange
  | IntegerDivideByZero
  | FetchChunksFailed
  | DecodeChunksFailed
  | OllamaCallFailed
  | OllamaStatusError
  | OllamaDecodeFailed
  | EmptyEmbedding
  | EmbeddingForChunkFailed nat error
  | QueryEmbeddingFailed error
  | VectorSearchFailed error


definition i64 :: "int \<Rightarrow> int" where
  "i64 x = (x + 2 ^ 63) mod 2 ^ 64 - 2 ^ 63"

definition len :: "'a list \<Rightarrow> int" where
  "len s = int (length s)"

definition slice :: "'a list \<Rightarrow> int \<Rightarrow> int \<Rightarrow> error + 'a list" where
  "slice s lo hi =
     (if 0 \<le> lo \<and> lo \<le> hi \<and> hi \<le> len s
      then Inr (take (nat (hi - lo)) (drop (nat lo) s))
      else Inl SliceBoundsOutOfRange)"


section \<open>The Go standard library functions the code calls\<close>

text \<open>
  \<open>unicode_IsSpace\<close> is \<^verbatim>\<open>unicode.IsSpace\<close>, \<open>DecodeRuneInString\<close> is
  \<^verbatim>\<open>utf8.DecodeRuneInString\<close> (an invalid or truncated encoding decodes to \<open>RuneError\<close>
  of width one), and \<open>runes\<close> is the sequence of runes of a string as a \<^verbatim>\<open>range\<close> loop
  sees it, each with the bytes it was decoded from. \<open>TrimSpace\<close>, \<open>Fields\<close>, \<open>Split\<close>
  (for a one-byte separator) and \<open>Join\<close> are the functions of package \<^verbatim>\<open>strings\<close>.
\<close>

definition unicode_IsSpace :: "nat \<Rightarrow> bool" where
  "unicode_IsSpace r =
     (if r \<le> 0xFF
      then r = 0x09 \<or> r = 0x0A \<or> r = 0x0B \<or> r = 0x0C \<or> r = 0x0D \<or> r = 0x20 \<or> r = 0x85 \<or> r = 0xA0
      else r = 0x1680 \<or> (0x2000 \<le> r \<and> r \<le> 0x200A) \<or> r = 0x2028 \<or> r = 0x2029
           \<or> r = 0x202F \<or> r = 0x205F \<or> r = 0x3000)"

definition RuneError :: nat where
  "RuneError = 0xFFFD"

definition byte :: "char \<Rightarrow> nat" where
  "byte c = of_char c"

definition locb :: nat where "locb = 0x80"
definition hicb :: nat where "hicb = 0xBF"

definition accept_lo :: "nat \<Rightarrow> nat" where
  "accept_lo p0 = (if p0 = 0xE0 then 0xA0 else if p0 = 0xF0 then 0x90 else locb)"

definition accept_hi :: "nat \<Rightarrow> nat" where
  "accept_hi p0 = (if p0 = 0xED then 0x9F else if p0 = 0xF4 then 0x8F else hicb)"

definition rune_size :: "nat \<Rightarrow> nat" where
  "rune_size p0 = (if p0 < 0xE0 then 2 else if p0 < 0xF0 then 3 else 4)"

fun DecodeRuneInString :: "string \<Rightarrow> nat \<times> nat" where
  "DecodeRuneInString [] = (RuneError, 0)"
| "DecodeRuneInString (c0 # rest) =
     (let p0 = byte c0 in
      if p0 < 0x80 then (p0, 1)
      else if p0 < 0xC2 \<or> 0xF4 < p0 then (RuneError, 1)
      else if length (c0 # rest) < rune_size p0 then (RuneError, 1)
      else
        (case rest of
           [] \<Rightarrow> (RuneError, 1)
         | c1 # rest1 \<Rightarrow>
             let b1 = byte c1 in
             if b1 < accept_lo p0 \<or> accept_hi p0 < b1 then (RuneError, 1)
             else if rune_size p0 \<le> 2 then ((p0 mod 32) * 64 + b1 mod 64, 2)
             else
               (case rest1 of
                  [] \<Rightarrow> (RuneError, 1)
                | c2 # rest2 \<Rightarrow>
                    let b2 = byte c2 in
                    if b2 < locb \<or> hicb < b2 then (RuneError, 1)
                    else if rune_size p0 \<le> 3
                    then ((p0 mod 16) * 4096 + (b1 mod 64) * 64 + b2 mod 64, 3)
                    else
                      (case rest2 of
                         [] \<Rightarrow> (RuneError, 1)
                       | c3 # rest3 \<Rightarrow>
                           let b3 = byte c3 in
                           if b3 < locb \<or> hicb < b3 then (RuneError, 1)
                           else ((p0 mod 8) * 262144 + (b1 mod 64) * 4096
                                 + (b2 mod 64) * 64 + b3 mod 64, 4)))))"

lemma DecodeRuneInString_size:
  "s \<noteq> [] \<Longrightarrow> 1 \<le> snd (DecodeRuneInString s) \<and> snd (DecodeRuneInString s) \<le> length s"
  by (cases s) (auto simp: Let_def rune_size_def split: list.splits)

function runes :: "string \<Rightarrow> (nat \<times> string) list" where
  "runes s =
     (if s = [] then []
      else (case DecodeRuneInString s of (r, w) \<Rightarrow> (r, take w s) # runes (drop w s)))"
  by pat_completeness auto
termination
  apply (relation "measure length")
   apply simp
  subgoal for s
    using DecodeRuneInString_size[of s] by (cases "DecodeRuneInString s") auto
  done

declare runes.simps [simp del]

definition is_space_rune :: "nat \<times> string \<Rightarrow> bool" where
  "is_space_rune p = unicode_IsSpace (fst p)"

definition trim_runes :: "(nat \<times> string) list \<Rightarrow> (nat \<times> string) list" where
  "trim_runes xs = rev (dropWhile is_space_rune (rev (dropWhile is_space_rune xs)))"

definition TrimSpace :: "string \<Rightarrow> string" where
  "TrimSpace s = concat (map snd (trim_runes (runes s)))"

fun FieldsFunc_loop :: "(nat \<times> string) list \<Rightarrow> string \<Rightarrow> string list" where
  "FieldsFunc_loop [] cur = (if cur = [] then [] else [cur])"
| "FieldsFunc_loop ((r, bs) # rs) cur =
     (if unicode_IsSpace r
      then (if cur = [] then [] else [cur]) @ FieldsFunc_loop rs []
      else FieldsFunc_loop rs (cur @ bs))"

definition Fields :: "string \<Rightarrow> string list" where
  "Fields s = FieldsFunc_loop (runes s) []"

fun Split :: "string \<Rightarrow> char \<Rightarrow> string list" where
  "Split [] sep = [[]]"
| "Split (c # cs) sep =
     (if c = sep then [] # Split cs sep
      else (case Split cs sep of [] \<Rightarrow> [[c]] | l # ls \<Rightarrow> (c # l) # ls))"

fun Join :: "string list \<Rightarrow> string \<Rightarrow> string" where
  "Join [] sep = []"
| "Join [x] sep = x"
| "Join (x # y # ys) sep = x @ sep @ Join (y # ys) sep"

fun cleanText_loop :: "string list \<Rightarrow> string list \<Rightarrow> string list" where
  "cleanText_loop [] cleanedLines = cleanedLines"
| "cleanText_loop (line # lines) cleanedLines =
     (let line = TrimSpace line in
      if line \<noteq> []
      then cleanText_loop lines (cleanedLines @ [Join (Fields line) '' ''])
      else cleanText_loop lines cleanedLines)"

definition cleanText :: "string \<Rightarrow> string" where
  "cleanText text = Join (cleanText_loop (Split text (CHR 0x0A)) []) '' ''"

definition clean_ends :: "string \<Rightarrow> bool" where
  "clean_ends e \<longleftrightarrow> runes e \<noteq> [] \<and> \<not> is_space_rune (hd (runes e)) \<and> \<not> is_space_rune (last (runes e))"


section \<open>Chunker (services/chunker.go)\<close>

text \<open>
  \<open>scan_sentence\<close>, \<open>scan_paragraph\<close> and \<open>scan_space\<close> are the three backward loops of
  \<^verbatim>\<open>findSentenceBoundary\<close>. \<open>chunk_iter\<close> is one execution of the body of the loop of
  \<^verbatim>\<open>ChunkText\<close>, with \<open>chunk_end\<close> the computation of \<^verbatim>\<open>end\<close> and \<open>next_start\<close> that of
  the next \<^verbatim>\<open>start\<close>; \<open>ChunkText_loop\<close> runs the loop, and its value is \<open>None\<close> if the loop
  does not terminate. \<open>emit chunks w\<close> is \<open>chunks\<close> after the window \<open>w\<close> has been trimmed
  and appended if it is not empty.
\<close>

record Chunker =
  ChunkSize :: int
  ChunkOverlap :: int

definition sentenceEnders :: "nat list" where
  "sentenceEnders = [0x2E, 0x21, 0x3F, 0x3002, 0xFF01, 0xFF1F]"

function scan_sentence :: "string \<Rightarrow> int \<Rightarrow> int \<Rightarrow> error + int option" where
  "scan_sentence text start i =
     (if i > start then
        (if 0 \<le> i \<and> i < len text then
           (if byte (text ! nat i) \<in> set sentenceEnders \<and>
               (i + 1 \<ge> len text \<or> unicode_IsSpace (byte (text ! nat (i + 1))))
            then Inr (Some (i + 1))
            else scan_sentence text start (i - 1))
         else Inl IndexOutOfRange)
      else Inr None)"
  by pat_completeness auto
termination
  by (relation "measure (\<lambda>(text, start, i). nat (i - start))") auto

function scan_paragraph :: "string \<Rightarrow> int \<Rightarrow> int \<Rightarrow> error + int option" where
  "scan_paragraph text start i =
     (if i > start then
        (if i + 1 < len text then
           (if 0 \<le> i then
              (if text ! nat i = CHR 0x0A \<and> text ! nat (i + 1) = CHR 0x0A
               then Inr (Some (i + 2))
               else scan_paragraph text start (i - 1))
            else Inl IndexOutOfRange)
         else scan_paragraph text start (i - 1))
      else Inr None)"
  by pat_completeness auto
termination
  by (relation "measure (\<lambda>(text, start, i). nat (i - start))") auto

function scan_space :: "string \<Rightarrow> int \<Rightarrow> int \<Rightarrow> error + int option" where
  "scan_space text start i =
     (if i > start then
        (if 0 \<le> i \<and> i < len text then
           (if unicode_IsSpace (byte (text ! nat i))
            then Inr (Some (i + 1))
            else scan_space text start (i - 1))
         else Inl IndexOutOfRange)
      else Inr None)"
  by pat_completeness auto
termination
  by (relation "measure (\<lambda>(text, start, i). nat (i - start))") auto

declare scan_sentence.simps [simp del] scan_paragraph.simps [simp del] scan_space.simps [simp del]

definition findSentenceBoundary :: "string \<Rightarrow> int \<Rightarrow> int \<Rightarrow> error + int" where
  "findSentenceBoundary text start end0 =
     (if end0 \<le> start then Inr end0
      else
        (case scan_sentence text start (end0 - 1) of
           Inl e \<Rightarrow> Inl e
         | Inr (Some b) \<Rightarrow> Inr b
         | Inr None \<Rightarrow>
             (case scan_paragraph text start (end0 - 1) of
                Inl e \<Rightarrow> Inl e
              | Inr (Some b) \<Rightarrow> Inr b
              | Inr None \<Rightarrow>
                  (case scan_space text start (end0 - 1) of
                     Inl e \<Rightarrow> Inl e
                   | Inr (Some b) \<Rightarrow> Inr b
                   | Inr None \<Rightarrow> Inr end0))))"

datatype outcome =
    Continue int int "string list"
  | Return "string list"
  | Panic error

definition chunk_end :: "Chunker \<Rightarrow> string \<Rightarrow> int \<Rightarrow> error + int" where
  "chunk_end c text start =
     (let end0 = i64 (start + ChunkSize c);
          end1 = (if end0 > len text then len text else end0)
      in
      if end1 < len text
      then (case findSentenceBoundary text start end1 of
              Inl e \<Rightarrow> Inl e
            | Inr sentenceEnd \<Rightarrow>
                if sentenceEnd > i64 (start + ChunkOverlap c)
                then Inr sentenceEnd else Inr end1)
      else Inr end1)"

definition next_start :: "Chunker \<Rightarrow> int \<Rightarrow> int \<Rightarrow> int" where
  "next_start c oldStart end2 =
     (let start1 = i64 (end2 - ChunkOverlap c);
          start2 = (if start1 < 0 then 0 else start1)
      in if start2 \<le> oldStart then i64 (oldStart + 1) else start2)"

definition chunk_iter :: "Chunker \<Rightarrow> string \<Rightarrow> int \<Rightarrow> int \<Rightarrow> int \<Rightarrow> string list \<Rightarrow> outcome" where
  "chunk_iter c text maxIterations start iteration chunks =
     (if \<not> start < len text then Return chunks
      else
        let iteration = i64 (iteration + 1) in
        if iteration > maxIterations then Return chunks
        else
          (case chunk_end c text start of
             Inl e \<Rightarrow> Panic e
           | Inr end2 \<Rightarrow>
               (case slice text start end2 of
                  Inl e \<Rightarrow> Panic e
                | Inr window \<Rightarrow>
                    let chunk = TrimSpace window;
                        chunks = (if length chunk > 0 then chunks @ [chunk] else chunks);
                        start' = next_start c start end2
                    in
                    if start' \<ge> end2 then Return chunks
                    else if start' \<ge> len text then Return chunks
                    else Continue start' iteration chunks)))"

partial_function (option) ChunkText_loop ::
  "Chunker \<Rightarrow> string \<Rightarrow> int \<Rightarrow> int \<Rightarrow> int \<Rightarrow> string list \<Rightarrow> (error + string list) option" where
  "ChunkText_loop c text maxIterations start iteration chunks =
     (case chunk_iter c text maxIterations start iteration chunks of
        Continue start' iteration' chunks' \<Rightarrow>
          ChunkText_loop c text maxIterations start' iteration' chunks'
      | Return chunks' \<Rightarrow> Some (Inr chunks')
      | Panic e \<Rightarrow> Some (Inl e))"

declare ChunkText_loop.simps [code]

definition ChunkText :: "Chunker \<Rightarrow> string \<Rightarrow> (error + string list) option" where
  "ChunkText c text0 =
     (let text = cleanText text0 in
      if length text = 0 then Some (Inr [])
      else if len text \<le> ChunkSize c then Some (Inr [text])
      else
        let minChunkSize = i64 (ChunkSize c - ChunkOverlap c);
            minChunkSize = (if minChunkSize \<le> 0 then 1 else minChunkSize);
            maxIterations = i64 (len text div minChunkSize + 1000)
        in ChunkText_loop c text maxIterations 0 0 [])"

definition emit :: "string list \<Rightarrow> string \<Rightarrow> string list" where
  "emit chunks w = (if length (TrimSpace w) > 0 then chunks @ [TrimSpace w] else chunks)"


section \<open>Embedder (services/embedder.go)\<close>

text \<open>
  \<open>sqrt_f32\<close> is the source's \<^verbatim>\<open>sqrt\<close> (ten Newton steps from \<open>z = x\<close>); the same function
  is declared in services/embedder.go and in storage/mongodb.go. In an \<open>Embedder\<close>,
  \<open>Ollama\<close> stands for the remote embedding endpoint (one request for one text) and
  \<open>unicode_ToLower\<close> for the lower-case mapping of package \<^verbatim>\<open>unicode\<close>, which
  \<^verbatim>\<open>strings.ToLower\<close> applies to the runes of a text that is not pure ASCII. The word
  counts are an association list in order of first occurrence; Go iterates over its map
  in an unspecified order, which changes nothing in exact arithmetic (lemma
  \<open>accumulate_order_irrelevant\<close>; \<open>add_word\<close> is the body of that loop). The concurrent
  units of \<open>GenerateEmbeddingsBatch\<close> write their slot under a lock: \<open>schedule\<close> is the
  order in which they do. After \<^verbatim>\<open>wg.Wait()\<close> the local branch logs
  \<^verbatim>\<open>totalTime/time.Duration(len(texts))\<close>, an integer division whose divisor is the
  number of texts.
\<close>

fun newton :: "nat \<Rightarrow> float32 \<Rightarrow> float32 \<Rightarrow> float32" where
  "newton 0 x z = z"
| "newton (Suc n) x z = newton n x ((z + x / z) / 2)"

definition sqrt_f32 :: "float32 \<Rightarrow> float32" where
  "sqrt_f32 x = (if x = 0 then 0 else newton 10 x x)"

record Embedder =
  BaseURL :: string
  Model :: string
  Ollama :: "string \<Rightarrow> error + float32 list"
  unicode_ToLower :: "nat \<Rightarrow> nat"

definition EncodeRune :: "nat \<Rightarrow> string" where
  "EncodeRune r =
     (if r < 0x80 then [char_of r]
      else if r < 0x800 then [char_of (0xC0 + r div 64), char_of (0x80 + r mod 64)]
      else if (0xD800 \<le> r \<and> r \<le> 0xDFFF) \<or> 0x10FFFF < r
      then [char_of (0xEF :: nat), char_of (0xBF :: nat), char_of (0xBD :: nat)]
      else if r < 0x10000
      then [char_of (0xE0 + r div 4096), char_of (0x80 + (r div 64) mod 64), char_of (0x80 + r mod 64)]
      else [char_of (0xF0 + r div 262144), char_of (0x80 + (r div 4096) mod 64),
            char_of (0x80 + (r div 64) mod 64), char_of (0x80 + r mod 64)])"

definition ascii_lower :: "char \<Rightarrow> char" where
  "ascii_lower c = (if 0x41 \<le> byte c \<and> byte c \<le> 0x5A then char_of (byte c + 0x20) else c)"

definition ToLower :: "(nat \<Rightarrow> nat) \<Rightarrow> string \<Rightarrow> string" where
  "ToLower lower s =
     (if list_all (\<lambda>c. byte c < 0x80) s then map ascii_lower s
      else concat (map (\<lambda>p. EncodeRune (lower (fst p))) (runes s)))"

definition cutset :: string where
  "cutset = ''.,!?;:\"'' @ [CHR 0x27] @ ''()[]{}''"

definition Trim :: "string \<Rightarrow> string \<Rightarrow> string" where
  "Trim s cs = rev (dropWhile (\<lambda>c. c \<in> set cs) (rev (dropWhile (\<lambda>c. c \<in> set cs) s)))"

fun increment :: "(string \<times> int) list \<Rightarrow> string \<Rightarrow> (string \<times> int) list" where
  "increment [] word = [(word, 1)]"
| "increment ((w, n) # m) word = (if w = word then (w, n + 1) # m else (w, n) # increment m word)"

fun count_words :: "string list \<Rightarrow> (string \<times> int) list \<Rightarrow> (string \<times> int) list" where
  "count_words [] wordCounts = wordCounts"
| "count_words (word # words) wordCounts =
     (let word = Trim word cutset in
      if length word > 0 then count_words words (increment wordCounts word)
      else count_words words wordCounts)"

fun hash_loop :: "(nat \<times> string) list \<Rightarrow> int \<Rightarrow> int" where
  "hash_loop [] hash = hash"
| "hash_loop ((char, bs) # rs) hash = hash_loop rs (i64 (hash * 31 + int char))"

fun accumulate :: "(string \<times> int) list \<Rightarrow> int \<Rightarrow> float32 list \<Rightarrow> float32 list" where
  "accumulate [] n embedding = embedding"
| "accumulate ((word, cnt) # m) n embedding =
     (let hash = hash_loop (runes word) 0;
          pos = nat ((hash AND 0x7FFFFFFF) mod 128)
      in accumulate m n (embedding[pos := embedding ! pos + of_int cnt / of_int n]))"

definition add_word :: "int \<Rightarrow> string \<times> int \<Rightarrow> float32 list \<Rightarrow> float32 list" where
  "add_word n p embedding =
     (let pos = nat ((hash_loop (runes (fst p)) 0 AND 0x7FFFFFFF) mod 128)
      in embedding[pos := embedding ! pos + of_int (snd p) / of_int n])"

fun sum_squares :: "float32 list \<Rightarrow> float32 \<Rightarrow> float32" where
  "sum_squares [] nrm = nrm"
| "sum_squares (val # vals) nrm = sum_squares vals (nrm + val * val)"

definition generateSimpleEmbedding :: "Embedder \<Rightarrow> string \<Rightarrow> float32 list" where
  "generateSimpleEmbedding e text0 =
     (let text = ToLower (unicode_ToLower e) text0;
          words = Fields text;
          embedding = replicate 128 0;
          wordCounts = count_words words [];
          embedding = accumulate wordCounts (len words) embedding;
          nrm = sum_squares embedding 0
      in if nrm > 0 then map (\<lambda>v. v / sqrt_f32 nrm) embedding else embedding)"


definition GenerateEmbedding :: "Embedder \<Rightarrow> string \<Rightarrow> error + float32 list" where
  "GenerateEmbedding e text0 =
     (if Model e = ''simple'' then Inr (generateSimpleEmbedding e text0)
      else
        (case Ollama e text0 of
           Inl err \<Rightarrow> Inl err
         | Inr embedding \<Rightarrow>
             if length embedding = 0 then Inl EmptyEmbedding else Inr embedding))"

fun GenerateEmbeddings_loop ::
  "Embedder \<Rightarrow> string list \<Rightarrow> nat \<Rightarrow> float32 list list \<Rightarrow> error + float32 list list" where
  "GenerateEmbeddings_loop e [] i embeddings = Inr embeddings"
| "GenerateEmbeddings_loop e (text0 # texts) i embeddings =
     (case GenerateEmbedding e text0 of
        Inl err \<Rightarrow> Inl (EmbeddingForChunkFailed i err)
      | Inr embedding \<Rightarrow> GenerateEmbeddings_loop e texts (i + 1) (embeddings[i := embedding]))"

definition GenerateEmbeddings :: "Embedder \<Rightarrow> string list \<Rightarrow> error + float32 list list" where
  "GenerateEmbeddings e texts =
     GenerateEmbeddings_loop e texts 0 (replicate (length texts) [])"

fun run_goroutines ::
  "Embedder \<Rightarrow> string list \<Rightarrow> nat list \<Rightarrow> float32 list list \<Rightarrow> float32 list list" where
  "run_goroutines e texts [] embeddings = embeddings"
| "run_goroutines e texts (idx # schedule) embeddings =
     run_goroutines e texts schedule (embeddings[idx := generateSimpleEmbedding e (texts ! idx)])"

definition GenerateEmbeddingsBatch ::
  "Embedder \<Rightarrow> string list \<Rightarrow> int \<Rightarrow> nat list \<Rightarrow> error + float32 list list" where
  "GenerateEmbeddingsBatch e texts batchSize schedule =
     (let embeddings = replicate (length texts) [] in
      if Model e = ''simple''
      then
        let embeddings = run_goroutines e texts schedule embeddings in
        if length texts = 0 then Inl IntegerDivideByZero
        else Inr embeddings
      else GenerateEmbeddings_loop e texts 0 embeddings)"

definition dots_text :: "nat \<Rightarrow> string" where
  "dots_text k = ''a'' @ concat (replicate k '' .'')"

definition example_embedder :: Embedder where
  "example_embedder =
     \<lparr>BaseURL = ''http://localhost:11434'', Model = ''simple'',
      Ollama = (\<lambda>prompt. Inl OllamaCallFailed), unicode_ToLower = id\<rparr>"


section \<open>Storage: brute-force cosine search (storage/mongodb.go)\<close>

text \<open>
  The document store is an
  external collaborator: it is a list of chunks together with two flags that say whether
  \<^verbatim>\<open>Find\<close> or \<^verbatim>\<open>cursor.All\<close> fail, and a filter \<^verbatim>\<open>bson.M{"book_id": id}\<close> selects the
  chunks whose \<^verbatim>\<open>book_id\<close> equals \<open>id\<close>.
\<close>

record Chunk =
  ID :: string
  BookID :: string
  ChunkIndex :: int
  Text :: string
  Embedding :: "float32 list"

record SearchResult =
  Chunk :: Chunk
  Score :: rat

record MongoStore =
  collection :: "Chunk list"
  find_fails :: bool
  decode_fails :: bool

fun cosine_loop :: "float32 list \<Rightarrow> float32 list \<Rightarrow> float32 \<times> float32 \<times> float32 \<Rightarrow> float32 \<times> float32 \<times> float32" where
  "cosine_loop (x # xs) (y # ys) (dotProduct, normA, normB) =
     cosine_loop xs ys (dotProduct + x * y, normA + x * x, normB + y * y)"
| "cosine_loop _ _ acc = acc"

definition cosineSimilarity :: "float32 list \<Rightarrow> float32 list \<Rightarrow> float32" where
  "cosineSimilarity a b =
     (if length a \<noteq> length b then 0
      else (case cosine_loop a b (0, 0, 0) of (dotProduct, normA, normB) \<Rightarrow>
        if normA = 0 \<or> normB = 0 then 0
        else dotProduct / (sqrt_f32 normA * sqrt_f32 normB)))"

definition matches :: "(string \<rightharpoonup> string) \<Rightarrow> Chunk \<Rightarrow> bool" where
  "matches flt c = (case flt ''book_id'' of None \<Rightarrow> True | Some v \<Rightarrow> BookID c = v)"

definition Find :: "MongoStore \<Rightarrow> (string \<rightharpoonup> string) \<Rightarrow> error + Chunk list" where
  "Find s flt = (if find_fails s then Inl FetchChunksFailed else Inr (filter (matches flt) (collection s)))"

definition cursor_All :: "MongoStore \<Rightarrow> Chunk list \<Rightarrow> error + Chunk list" where
  "cursor_All s cursor = (if decode_fails s then Inl DecodeChunksFailed else Inr cursor)"

fun score_loop :: "float32 list \<Rightarrow> Chunk list \<Rightarrow> SearchResult list \<Rightarrow> SearchResult list" where
  "score_loop queryEmbedding [] results = results"
| "score_loop queryEmbedding (chunk # chunks) results =
     (if length (Embedding chunk) \<noteq> length queryEmbedding then score_loop queryEmbedding chunks results
      else score_loop queryEmbedding chunks
             (results @ [\<lparr>Chunk = chunk, Score = cosineSimilarity queryEmbedding (Embedding chunk)\<rparr>]))"

function sort_inner :: "SearchResult list \<Rightarrow> nat \<Rightarrow> nat \<Rightarrow> SearchResult list" where
  "sort_inner results i j =
     (if j < length results
      then sort_inner
             (if Score (results ! j) > Score (results ! i)
              then results[i := results ! j, j := results ! i] else results)
             i (j + 1)
      else results)"
  by pat_completeness auto
termination
  by (relation "measure (\<lambda>(results, i, j). length results - j)") auto

declare sort_inner.simps [simp del]

lemma length_sort_inner: "length (sort_inner results i j) = length results"
  by (induction results i j rule: sort_inner.induct) (subst sort_inner.simps, simp)

function sort_outer :: "SearchResult list \<Rightarrow> nat \<Rightarrow> SearchResult list" where
  "sort_outer results i =
     (if i + 1 < length results then sort_outer (sort_inner results i (i + 1)) (i + 1) else results)"
  by pat_completeness auto
termination
  by (relation "measure (\<lambda>(results, i). length results - i)") (auto simp: length_sort_inner)

declare sort_outer.simps [simp del]

lemma length_sort_outer: "length (sort_outer results i) = length results"
  by (induction results i rule: sort_outer.induct) (subst sort_outer.simps, simp add: length_sort_inner)

definition SimpleVectorSearch ::
  "MongoStore \<Rightarrow> float32 list \<Rightarrow> int \<Rightarrow> string \<Rightarrow> error + SearchResult list" where
  "SimpleVectorSearch s queryEmbedding limit bookID =
     (let flt = (if bookID \<noteq> [] then [''book_id'' \<mapsto> bookID] else Map.empty) in
      case Find s flt of
        Inl e \<Rightarrow> Inl e
      | Inr cursor \<Rightarrow>
          (case cursor_All s cursor of
             Inl e \<Rightarrow> Inl e
           | Inr chunks \<Rightarrow>
               let results = score_loop queryEmbedding chunks [];
                   results = sort_outer results 0
               in if int (length results) > limit
                  then (if 0 \<le> limit then Inr (take (nat limit) results)
                        else Inl SliceBoundsOutOfRange)
                  else Inr results))"

definition dominated :: "SearchResult list \<Rightarrow> nat \<Rightarrow> bool" where
  "dominated rs i = (\<forall>p k. p < i \<and> p < k \<and> k < length rs \<longrightarrow> Score (rs ! k) \<le> Score (rs ! p))"

definition example_chunk :: "string \<Rightarrow> string \<Rightarrow> float32 list \<Rightarrow> Chunk" where
  "example_chunk cid bid v = \<lparr>ID = cid, BookID = bid, ChunkIndex = 0, Text = ''text'', Embedding = v\<rparr>"

definition example_store :: MongoStore where
  "example_store =
     \<lparr>collection =
        [example_chunk ''c1'' ''b1'' [0, 1],
         example_chunk ''c2'' ''b2'' [1, 0],
         example_chunk ''c3'' ''b1'' [1, 0],
         example_chunk ''c4'' ''b1'' [1, 0, 0],
         example_chunk ''c5'' ''b1'' [3 / 5, 4 / 5]],
      find_fails = False, decode_fails = False\<rparr>"

section \<open>Retriever and query handler (services/retriever.go, the controller)\<close>












section \<open>Properties of the library functions\<close>

lemma runes_Nil [simp]: "runes [] = []"
  by (simp add: runes.simps)

lemma runes_Cons:
  "s \<noteq> [] \<Longrightarrow>
   runes s = (fst (DecodeRuneInString s), take (snd (DecodeRuneInString s)) s)
             # runes (drop (snd (DecodeRuneInString s)) s)"
  by (subst runes.simps) (simp add: case_prod_beta)

lemma concat_runes: "concat (map snd (runes s)) = s"
proof (induction s rule: runes.induct)
  case (1 s)
  show ?case
  proof (cases "s = []")
    case True
    then show ?thesis by simp
  next
    case False
    obtain r w where d: "DecodeRuneInString s = (r, w)" by (cases "DecodeRuneInString s")
    have "concat (map snd (runes (drop w s))) = drop w s"
      using "1.IH"[OF False d[symmetric]] .
    then show ?thesis using False d by (simp add: runes_Cons)
  qed
qed

lemma runes_segments_nonempty: "p \<in> set (runes s) \<Longrightarrow> snd p \<noteq> []"
proof (induction s arbitrary: p rule: runes.induct)
  case (1 s)
  show ?case
  proof (cases "s = []")
    case True
    with "1.prems" show ?thesis by simp
  next
    case False
    obtain r w where d: "DecodeRuneInString s = (r, w)" by (cases "DecodeRuneInString s")
    have w: "1 \<le> w" "w \<le> length s" using DecodeRuneInString_size[OF False] d by auto
    from "1.prems" False d have "p = (r, take w s) \<or> p \<in> set (runes (drop w s))"
      by (simp add: runes_Cons)
    then show ?thesis
    proof
      assume "p = (r, take w s)"
      then show ?thesis using w False by (cases s) auto
    next
      assume "p \<in> set (runes (drop w s))"
      then show ?thesis using "1.IH"[OF False d[symmetric]] by blast
    qed
  qed
qed

lemma Decode_append_prefix:
  assumes "a \<noteq> []" "snd (DecodeRuneInString (a @ b)) \<le> length a"
  shows "DecodeRuneInString a = DecodeRuneInString (a @ b)"
proof (cases a)
  case Nil
  with assms show ?thesis by simp
next
  case (Cons c0 a1)
  show ?thesis
  proof (cases a1)
    case Nil
    with Cons assms show ?thesis
      by (cases b) (auto simp: Let_def rune_size_def split: list.splits if_splits)
  next
    case (Cons c1 a2)
    note c1 = this
    show ?thesis
    proof (cases a2)
      case Nil
      with c1 \<open>a = c0 # a1\<close> assms show ?thesis
        by (cases b) (auto simp: Let_def rune_size_def split: list.splits if_splits)
    next
      case (Cons c2 a3)
      note c2 = this
      show ?thesis
      proof (cases a3)
        case Nil
        with c1 c2 \<open>a = c0 # a1\<close> assms show ?thesis
          by (cases b) (auto simp: Let_def rune_size_def split: list.splits if_splits)
      next
        case (Cons c3 a4)
        with c1 c2 \<open>a = c0 # a1\<close> assms show ?thesis
          by (auto simp: Let_def rune_size_def split: list.splits if_splits)
      qed
    qed
  qed
qed

lemma Decode_append_ascii:
  assumes "a \<noteq> []" "b = [] \<or> byte (hd b) < 0x80"
  shows "DecodeRuneInString (a @ b) = DecodeRuneInString a"
proof (cases "b = []")
  case True
  then show ?thesis by simp
next
  case False
  then obtain d bs where b: "b = d # bs" by (cases b) auto
  with assms have d: "byte d < 0x80" by simp
  show ?thesis
  proof (cases a)
    case Nil
    with assms show ?thesis by simp
  next
    case (Cons c0 a1)
    show ?thesis
    proof (cases a1)
      case Nil
      with Cons b d show ?thesis
        by (auto simp: Let_def rune_size_def accept_lo_def accept_hi_def locb_def hicb_def
            split: list.splits if_splits)
    next
      case (Cons c1 a2)
      note c1 = this
      show ?thesis
      proof (cases a2)
        case Nil
        with c1 \<open>a = c0 # a1\<close> b d show ?thesis
          by (auto simp: Let_def rune_size_def accept_lo_def accept_hi_def locb_def hicb_def
              split: list.splits if_splits)
      next
        case (Cons c2 a3)
        note c2 = this
        show ?thesis
        proof (cases a3)
          case Nil
          with c1 c2 \<open>a = c0 # a1\<close> b d show ?thesis
            by (auto simp: Let_def rune_size_def accept_lo_def accept_hi_def locb_def hicb_def
                split: list.splits if_splits)
        next
          case (Cons c3 a4)
          with c1 c2 \<open>a = c0 # a1\<close> show ?thesis
            by (auto simp: Let_def rune_size_def split: list.splits if_splits)
        qed
      qed
    qed
  qed
qed

lemma runes_append_ascii:
  "b = [] \<or> byte (hd b) < 0x80 \<Longrightarrow> runes (a @ b) = runes a @ runes b"
proof (induction a rule: length_induct)
  case (1 a)
  show ?case
  proof (cases "a = []")
    case True
    then show ?thesis by simp
  next
    case False
    let ?w = "snd (DecodeRuneInString a)"
    have w: "1 \<le> ?w" "?w \<le> length a" using DecodeRuneInString_size[OF False] by auto
    have d: "DecodeRuneInString (a @ b) = DecodeRuneInString a"
      using Decode_append_ascii[OF False "1.prems"] .
    have "length (drop ?w a) < length a" using w False by simp
    then have IH: "runes (drop ?w a @ b) = runes (drop ?w a) @ runes b"
      using "1.IH" "1.prems" by blast
    have "runes (a @ b) = (fst (DecodeRuneInString a), take ?w (a @ b)) # runes (drop ?w (a @ b))"
      using False d by (simp add: runes_Cons)
    also have "\<dots> = (fst (DecodeRuneInString a), take ?w a) # runes (drop ?w a @ b)"
      using w by simp
    also have "\<dots> = runes a @ runes b"
      using IH False by (simp add: runes_Cons[of a])
    finally show ?thesis .
  qed
qed

lemma runes_suffix: "runes s = A @ B \<Longrightarrow> runes (concat (map snd B)) = B"
proof (induction A arbitrary: s)
  case Nil
  then show ?case using concat_runes[of s] by simp
next
  case (Cons a A)
  then have ne: "s \<noteq> []" by auto
  let ?w = "snd (DecodeRuneInString s)"
  have "runes (drop ?w s) = A @ B" using Cons.prems ne by (simp add: runes_Cons)
  then show ?case by (rule Cons.IH)
qed

lemma runes_prefix: "runes s = A @ B \<Longrightarrow> runes (concat (map snd A)) = A"
proof (induction A arbitrary: s)
  case Nil
  then show ?case by simp
next
  case (Cons a A)
  then have ne: "s \<noteq> []" by auto
  let ?w = "snd (DecodeRuneInString s)"
  let ?r = "fst (DecodeRuneInString s)"
  have w: "1 \<le> ?w" "?w \<le> length s" using DecodeRuneInString_size[OF ne] by auto
  have a: "a = (?r, take ?w s)" and rest: "runes (drop ?w s) = A @ B"
    using Cons.prems ne by (simp_all add: runes_Cons)
  have IH: "runes (concat (map snd A)) = A" using rest by (rule Cons.IH)
  let ?t = "take ?w s @ concat (map snd A)"
  have s: "s = ?t @ concat (map snd B)"
  proof -
    have "drop ?w s = concat (map snd (A @ B))" using rest concat_runes[of "drop ?w s"] by simp
    then have "take ?w s @ drop ?w s = take ?w s @ concat (map snd A) @ concat (map snd B)" by simp
    then show ?thesis by simp
  qed
  have tne: "?t \<noteq> []" using w ne by (cases s) auto
  have "snd (DecodeRuneInString (?t @ concat (map snd B))) \<le> length ?t"
    using s w by simp
  then have d: "DecodeRuneInString ?t = DecodeRuneInString s"
    using Decode_append_prefix[OF tne, of "concat (map snd B)"] s by simp
  have "runes ?t = (?r, take ?w ?t) # runes (drop ?w ?t)"
    using tne d by (simp add: runes_Cons[of ?t])
  also have "take ?w ?t = take ?w s" using w by simp
  also have "drop ?w ?t = concat (map snd A)" using w by simp
  finally show ?case using a IH by simp
qed

lemma runes_infix: "runes s = A @ C @ B \<Longrightarrow> runes (concat (map snd C)) = C"
proof -
  assume "runes s = A @ C @ B"
  then have "runes (concat (map snd (C @ B))) = C @ B" by (rule runes_suffix)
  then show ?thesis by (rule runes_prefix)
qed

lemma TrimSpace_trim_runes: "TrimSpace s = concat (map snd (trim_runes (runes s)))"
  by (simp add: TrimSpace_def)

lemma rev_dropWhile_split: "ys = rev (dropWhile P (rev ys)) @ rev (takeWhile P (rev ys))"
  by (metis rev_append rev_rev_ident takeWhile_dropWhile_id)

lemma dropWhile_hd: "zs \<noteq> [] \<Longrightarrow> \<not> P (hd zs) \<Longrightarrow> dropWhile P zs = zs"
  by (cases zs) auto

lemma trim_runes_split:
  "xs = takeWhile is_space_rune xs @ trim_runes xs
        @ rev (takeWhile is_space_rune (rev (dropWhile is_space_rune xs)))"
proof -
  have "xs = takeWhile is_space_rune xs @ dropWhile is_space_rune xs" by simp
  also have "dropWhile is_space_rune xs = trim_runes xs
        @ rev (takeWhile is_space_rune (rev (dropWhile is_space_rune xs)))"
    unfolding trim_runes_def by (rule rev_dropWhile_split)
  finally show ?thesis .
qed

lemma rev_dropWhile_keeps_hd:
  assumes "ys \<noteq> []" "\<not> P (hd ys)"
  shows "rev (dropWhile P (rev ys)) \<noteq> [] \<and> hd (rev (dropWhile P (rev ys))) = hd ys"
proof -
  obtain y ys' where ys: "ys = y # ys'" using assms(1) by (cases ys) auto
  have ny: "\<not> P y" using assms(2) ys by simp
  have "\<exists>zs. dropWhile P (rev ys' @ [y]) = zs @ [y]"
  proof (cases "\<forall>x \<in> set (rev ys'). P x")
    case True
    have "dropWhile P (rev ys' @ [y]) = dropWhile P [y]"
      by (rule dropWhile_append2) (use True in auto)
    then show ?thesis using ny by simp
  next
    case False
    then have "dropWhile P (rev ys' @ [y]) = dropWhile P (rev ys') @ [y]"
      by (metis dropWhile_append1 )
    then show ?thesis by blast
  qed
  then obtain zs where "dropWhile P (rev ys) = zs @ [y]" using ys by auto
  then show ?thesis using ys by simp
qed

lemma trim_runes_ends:
  assumes "trim_runes xs \<noteq> []"
  shows "\<not> is_space_rune (hd (trim_runes xs)) \<and> \<not> is_space_rune (last (trim_runes xs))"
proof -
  let ?ys = "dropWhile is_space_rune xs"
  have ne: "?ys \<noteq> []"
  proof
    assume e: "?ys = []"
    have "trim_runes xs = []" unfolding trim_runes_def e by simp
    then show False using assms by simp
  qed
  have h: "\<not> is_space_rune (hd ?ys)" using ne by (rule hd_dropWhile)
  have d: "dropWhile is_space_rune (rev ?ys) \<noteq> []"
  proof
    assume e: "dropWhile is_space_rune (rev ?ys) = []"
    have "trim_runes xs = []" unfolding trim_runes_def e by simp
    then show False using assms by simp
  qed
  have "last (trim_runes xs) = hd (dropWhile is_space_rune (rev ?ys))"
    using d by (simp add: trim_runes_def last_rev)
  moreover have "\<not> is_space_rune (hd (dropWhile is_space_rune (rev ?ys)))"
    using d by (rule hd_dropWhile)
  moreover have "hd (trim_runes xs) = hd ?ys"
    using rev_dropWhile_keeps_hd[of ?ys is_space_rune] ne h by (simp add: trim_runes_def)
  ultimately show ?thesis using h by simp
qed

lemma runes_TrimSpace: "runes (TrimSpace s) = trim_runes (runes s)"
  unfolding TrimSpace_trim_runes using trim_runes_split[of "runes s"] runes_infix by metis

lemma TrimSpace_clean_ends: "TrimSpace s \<noteq> [] \<Longrightarrow> clean_ends (TrimSpace s)"
proof -
  assume a: "TrimSpace s \<noteq> []"
  have ne: "trim_runes (runes s) \<noteq> []"
    using a by (auto simp: TrimSpace_trim_runes)
  show ?thesis
    unfolding clean_ends_def runes_TrimSpace using ne trim_runes_ends[OF ne] by simp
qed

lemma clean_ends_TrimSpace: "clean_ends e \<Longrightarrow> TrimSpace e = e"
proof -
  assume g: "clean_ends e"
  then have ne: "runes e \<noteq> []" and h: "\<not> is_space_rune (hd (runes e))"
    and l: "\<not> is_space_rune (last (runes e))" by (auto simp: clean_ends_def)
  have 1: "dropWhile is_space_rune (runes e) = runes e"
    using ne h by (rule dropWhile_hd)
  have "hd (rev (runes e)) = last (runes e)" using ne by (simp add: hd_rev)
  then have 2: "dropWhile is_space_rune (rev (runes e)) = rev (runes e)"
    using ne l by (intro dropWhile_hd) auto
  show ?thesis by (simp add: TrimSpace_def trim_runes_def 1 2 concat_runes)
qed

lemma TrimSpace_Nil [simp]: "TrimSpace [] = []"
  by (simp add: TrimSpace_def trim_runes_def)

lemma TrimSpace_idem: "TrimSpace (TrimSpace s) = TrimSpace s"
  by (cases "TrimSpace s = []") (simp_all add: clean_ends_TrimSpace TrimSpace_clean_ends)

lemma TrimSpace_sublist: "sublist (TrimSpace s) s"
proof -
  let ?xs = "runes s"
  have "concat (map snd ?xs) = concat (map snd (takeWhile is_space_rune ?xs)) @ TrimSpace s
        @ concat (map snd (rev (takeWhile is_space_rune (rev (dropWhile is_space_rune ?xs)))))"
    unfolding TrimSpace_trim_runes
    by (subst trim_runes_split[of ?xs]) (simp only: map_append concat_append)
  then show ?thesis unfolding concat_runes sublist_def by blast
qed

lemma TrimSpace_length: "length (TrimSpace s) \<le> length s"
  using TrimSpace_sublist[of s] by (rule sublist_length_le)

lemma TrimSpace_set: "set (TrimSpace s) \<subseteq> set s"
  using TrimSpace_sublist[of s] by (rule set_mono_sublist)

lemma FieldsFunc_loop_fields:
  assumes "runes s = A @ C @ rs" "\<forall>p \<in> set C. \<not> is_space_rune p"
    "cur = concat (map snd C)" "f \<in> set (FieldsFunc_loop rs cur)"
  shows "\<exists>A' C' B'. runes s = A' @ C' @ B' \<and> C' \<noteq> [] \<and> (\<forall>p \<in> set C'. \<not> is_space_rune p)
           \<and> f = concat (map snd C')"
  using assms
proof (induction rs arbitrary: A C cur)
  case Nil
  then have "f = cur" "cur \<noteq> []" by (auto split: if_splits)
  then have "C \<noteq> []" using Nil.prems(3) by auto
  then show ?case using Nil.prems \<open>f = cur\<close> by blast
next
  case (Cons p rs)
  obtain r bs where p: "p = (r, bs)" by (cases p)
  show ?case
  proof (cases "unicode_IsSpace r")
    case True
    then have "f \<in> set (if cur = [] then [] else [cur]) \<or> f \<in> set (FieldsFunc_loop rs [])"
      using Cons.prems(4) p by simp
    then show ?thesis
    proof
      assume "f \<in> set (if cur = [] then [] else [cur])"
      then have "f = cur" "cur \<noteq> []" by (auto split: if_splits)
      then have "C \<noteq> []" using Cons.prems(3) by auto
      then show ?thesis using Cons.prems \<open>f = cur\<close> by blast
    next
      assume f: "f \<in> set (FieldsFunc_loop rs [])"
      have "runes s = (A @ C @ [p]) @ [] @ rs" using Cons.prems(1) by simp
      from Cons.IH[OF this _ _ f] show ?thesis by simp
    qed
  next
    case False
    then have f: "f \<in> set (FieldsFunc_loop rs (cur @ bs))" using Cons.prems(4) p by simp
    have 1: "runes s = A @ (C @ [p]) @ rs" using Cons.prems(1) by simp
    have 2: "\<forall>q \<in> set (C @ [p]). \<not> is_space_rune q"
      using Cons.prems(2) False p by (simp add: is_space_rune_def)
    have 3: "cur @ bs = concat (map snd (C @ [p]))" using Cons.prems(3) p by simp
    from Cons.IH[OF 1 2 3 f] show ?thesis .
  qed
qed

lemma Fields_clean_ends: "f \<in> set (Fields s) \<Longrightarrow> clean_ends f \<and> set f \<subseteq> set s"
proof -
  assume "f \<in> set (Fields s)"
  then have f: "f \<in> set (FieldsFunc_loop (runes s) [])" by (simp add: Fields_def)
  have "runes s = [] @ [] @ runes s" by simp
  from FieldsFunc_loop_fields[OF this _ _ f]
  obtain A C B where c: "runes s = A @ C @ B" "C \<noteq> []" "\<forall>p \<in> set C. \<not> is_space_rune p"
    "f = concat (map snd C)" by auto
  have r: "runes f = C" using c(1,4) runes_infix by blast
  have "hd C \<in> set C" "last C \<in> set C" using c(2) by auto
  then have g: "clean_ends f" using c(2,3) r by (simp add: clean_ends_def)
  have "set f \<subseteq> set (concat (map snd (runes s)))" using c(1,4) by auto
  then show ?thesis using g by (simp add: concat_runes)
qed

lemma FieldsFunc_loop_nonempty:
  "\<forall>p \<in> set rs. snd p \<noteq> [] \<Longrightarrow> cur \<noteq> [] \<or> (\<exists>p \<in> set rs. \<not> is_space_rune p) \<Longrightarrow>
   FieldsFunc_loop rs cur \<noteq> []"
proof (induction rs arbitrary: cur)
  case Nil
  then show ?case by simp
next
  case (Cons p rs)
  obtain r bs where p: "p = (r, bs)" by (cases p)
  have bs: "bs \<noteq> []" using Cons.prems(1) p by simp
  show ?case
  proof (cases "unicode_IsSpace r")
    case True
    show ?thesis
    proof (cases "cur = []")
      case True
      then have "\<exists>q \<in> set rs. \<not> is_space_rune q"
        using Cons.prems(2) p \<open>unicode_IsSpace r\<close> by (auto simp: is_space_rune_def)
      then have "FieldsFunc_loop rs [] \<noteq> []" using Cons.IH[of "[]"] Cons.prems(1) by simp
      then show ?thesis using p \<open>unicode_IsSpace r\<close> by simp
    next
      case False
      then show ?thesis using p \<open>unicode_IsSpace r\<close> by simp
    qed
  next
    case False
    have "FieldsFunc_loop rs (cur @ bs) \<noteq> []"
      using Cons.IH[of "cur @ bs"] Cons.prems(1) bs by simp
    then show ?thesis using p False by simp
  qed
qed

lemma clean_ends_Fields_nonempty: "clean_ends e \<Longrightarrow> Fields e \<noteq> []"
proof -
  assume g: "clean_ends e"
  then have "hd (runes e) \<in> set (runes e)" "\<not> is_space_rune (hd (runes e))"
    by (auto simp: clean_ends_def)
  then have "\<exists>p \<in> set (runes e). \<not> is_space_rune p" by blast
  moreover have "\<forall>p \<in> set (runes e). snd p \<noteq> []" using runes_segments_nonempty by blast
  ultimately show ?thesis unfolding Fields_def by (intro FieldsFunc_loop_nonempty) auto
qed

lemma runes_space_Cons: "runes (CHR '' '' # rest) = (0x20, '' '') # runes rest"
  by (simp add: runes_Cons byte_def)

lemma clean_ends_nonempty: "clean_ends e \<Longrightarrow> e \<noteq> []"
  by (auto simp: clean_ends_def)

lemma Join_clean_ends:
  "es \<noteq> [] \<Longrightarrow> \<forall>e \<in> set es. clean_ends e \<Longrightarrow> clean_ends (Join es '' '')"
proof (induction es "'' ''" rule: Join.induct)
  case 1
  then show ?case by simp
next
  case (2 x)
  then show ?case by simp
next
  case (3 x y ys)
  let ?rest = "Join (y # ys) '' ''"
  have gr: "clean_ends ?rest" using 3 by simp
  have gx: "clean_ends x" using 3 by simp
  have "runes (x @ '' '' @ ?rest) = runes x @ runes ('' '' @ ?rest)"
    by (rule runes_append_ascii) (simp add: byte_def)
  then have r: "runes (Join (x # y # ys) '' '') = runes x @ (0x20, '' '') # runes ?rest"
    by (simp add: runes_space_Cons)
  have "runes x \<noteq> []" "runes ?rest \<noteq> []" using gx gr by (auto simp: clean_ends_def)
  then show ?case using gx gr unfolding clean_ends_def r by simp
qed

lemma Join_set: "set (Join es sep) \<subseteq> (\<Union>e \<in> set es. set e) \<union> set sep"
  by (induction es sep rule: Join.induct) auto

lemma Split_no_sep: "l \<in> set (Split t sep) \<Longrightarrow> sep \<notin> set l"
proof (induction t arbitrary: l)
  case Nil
  then show ?case by simp
next
  case (Cons c cs)
  show ?case
  proof (cases "c = sep")
    case True
    then show ?thesis using Cons by auto
  next
    case False
    show ?thesis
    proof (cases "Split cs sep")
      case Nil
      then show ?thesis using Cons False by auto
    next
      case (Cons l' ls)
      then show ?thesis using Cons.IH Cons.prems False \<open>Split cs sep = l' # ls\<close>
        by (auto simp: Cons)
    qed
  qed
qed

lemma cleanText_loop_skip:
  "TrimSpace line = [] \<Longrightarrow> cleanText_loop (line # lines) acc = cleanText_loop lines acc"
  by (simp add: Let_def)

lemma cleanText_loop_keep:
  "TrimSpace line \<noteq> [] \<Longrightarrow>
   cleanText_loop (line # lines) acc =
     cleanText_loop lines (acc @ [Join (Fields (TrimSpace line)) '' ''])"
  by (simp add: Let_def)

lemma cleaned_line_clean_ends:
  assumes "TrimSpace line \<noteq> []" "CHR 0x0A \<notin> set line"
  shows "clean_ends (Join (Fields (TrimSpace line)) '' '') \<and>
         CHR 0x0A \<notin> set (Join (Fields (TrimSpace line)) '' '')"
proof -
  let ?l = "TrimSpace line"
  let ?e = "Join (Fields ?l) '' ''"
  have gl: "clean_ends ?l" using assms(1) by (rule TrimSpace_clean_ends)
  have fne: "Fields ?l \<noteq> []" using gl by (rule clean_ends_Fields_nonempty)
  have fg: "\<forall>f \<in> set (Fields ?l). clean_ends f"
  proof
    fix f assume "f \<in> set (Fields ?l)"
    then show "clean_ends f" using Fields_clean_ends[of f ?l] by simp
  qed
  have ge: "clean_ends ?e" using fne fg by (rule Join_clean_ends)
  have nl: "CHR 0x0A \<notin> set ?l" using assms(2) TrimSpace_set[of line] by blast
  have "CHR 0x0A \<notin> set ?e"
  proof
    assume "CHR 0x0A \<in> set ?e"
    then have "CHR 0x0A \<in> (\<Union>e \<in> set (Fields ?l). set e) \<union> set '' ''"
      using Join_set[of "Fields ?l" "'' ''"] by blast
    then obtain f where f: "f \<in> set (Fields ?l)" "CHR 0x0A \<in> set f" by auto
    then have "set f \<subseteq> set ?l" using Fields_clean_ends[of f ?l] by simp
    then show False using f(2) nl by blast
  qed
  then show ?thesis using ge by simp
qed

lemma cleanText_loop_props:
  assumes "\<forall>e \<in> set acc. clean_ends e \<and> CHR 0x0A \<notin> set e" "\<forall>l \<in> set lines. CHR 0x0A \<notin> set l"
  shows "\<forall>e \<in> set (cleanText_loop lines acc). clean_ends e \<and> CHR 0x0A \<notin> set e"
  using assms
proof (induction lines arbitrary: acc)
  case Nil
  then show ?case by simp
next
  case (Cons line lines)
  have b: "\<forall>l \<in> set lines. CHR 0x0A \<notin> set l" using Cons.prems(2) by simp
  show ?case
  proof (cases "TrimSpace line = []")
    case True
    show ?thesis unfolding cleanText_loop_skip[OF True] using Cons.prems(1) b by (rule Cons.IH)
  next
    case False
    have "CHR 0x0A \<notin> set line" using Cons.prems(2) by simp
    then have g: "clean_ends (Join (Fields (TrimSpace line)) '' '') \<and>
         CHR 0x0A \<notin> set (Join (Fields (TrimSpace line)) '' '')"
      using cleaned_line_clean_ends[OF False] by simp
    have a: "\<forall>e \<in> set (acc @ [Join (Fields (TrimSpace line)) '' '']). clean_ends e \<and> CHR 0x0A \<notin> set e"
    proof
      fix e assume "e \<in> set (acc @ [Join (Fields (TrimSpace line)) '' ''])"
      then have "e \<in> set acc \<or> e = Join (Fields (TrimSpace line)) '' ''" by auto
      then show "clean_ends e \<and> CHR 0x0A \<notin> set e" using g Cons.prems(1) by blast
    qed
    show ?thesis unfolding cleanText_loop_keep[OF False] using a b by (rule Cons.IH)
  qed
qed

lemma cleanText_no_newline: "CHR 0x0A \<notin> set (cleanText text)"
proof -
  have "\<forall>e \<in> set (cleanText_loop (Split text (CHR 0x0A)) []). clean_ends e \<and> CHR 0x0A \<notin> set e"
    by (rule cleanText_loop_props) (auto dest: Split_no_sep)
  then show ?thesis unfolding cleanText_def
    using Join_set[of "cleanText_loop (Split text (CHR 0x0A)) []" "'' ''"] by auto
qed

lemma cleanText_trimmed: "TrimSpace (cleanText text) = cleanText text"
proof (cases "cleanText_loop (Split text (CHR 0x0A)) [] = []")
  case True
  then show ?thesis by (simp add: cleanText_def)
next
  case False
  have "\<forall>e \<in> set (cleanText_loop (Split text (CHR 0x0A)) []). clean_ends e \<and> CHR 0x0A \<notin> set e"
    by (rule cleanText_loop_props) (auto dest: Split_no_sep)
  then have "clean_ends (cleanText text)" unfolding cleanText_def using False by (intro Join_clean_ends) auto
  then show ?thesis by (rule clean_ends_TrimSpace)
qed

section \<open>Properties of the chunker\<close>

lemma i64_id: "- (2 ^ 63) \<le> x \<Longrightarrow> x < 2 ^ 63 \<Longrightarrow> i64 x = x"
  by (simp add: i64_def)

lemma i64_le: "- (2 ^ 63) \<le> x \<Longrightarrow> i64 x \<le> x"
proof -
  assume "- (2 ^ 63) \<le> x"
  then have "0 \<le> x + 2 ^ 63" by simp
  then have "(x + 2 ^ 63) mod 2 ^ 64 \<le> x + 2 ^ 63" by (rule zmod_le_nonneg_dividend)
  then show ?thesis by (simp add: i64_def)
qed

lemma i64_range: "- (2 ^ 63) \<le> i64 x \<and> i64 x < 2 ^ 63"
proof -
  have "0 \<le> (x + 2 ^ 63) mod (2 ^ 64 :: int)" by simp
  moreover have "(x + 2 ^ 63) mod (2 ^ 64 :: int) < 2 ^ 64" by simp
  ultimately show ?thesis by (simp add: i64_def)
qed

lemma scan_sentence_bound:
  "scan_sentence t start i = Inr (Some b) \<Longrightarrow> start + 1 < b \<and> b \<le> i + 1"
proof (induction t start i rule: scan_sentence.induct)
  case (1 t start i)
  note a = "1.prems"
  show ?case
  proof (cases "i > start")
    case False
    with a show ?thesis by (subst (asm) scan_sentence.simps) simp
  next
    case True
    note gt = this
    show ?thesis
    proof (cases "0 \<le> i \<and> i < len t")
      case False
      with a gt show ?thesis by (subst (asm) scan_sentence.simps) auto
    next
      case True
      note rng = this
      show ?thesis
      proof (cases "byte (t ! nat i) \<in> set sentenceEnders \<and> (i + 1 \<ge> len t \<or> unicode_IsSpace (byte (t ! nat (i + 1))))")
        case True
        with a gt rng have "b = i + 1" by (subst (asm) scan_sentence.simps) simp
        then show ?thesis using gt by simp
      next
        case False
        with a gt rng have "scan_sentence t start (i - 1) = Inr (Some b)"
          by (subst (asm) scan_sentence.simps) simp
        then have "start + 1 < b \<and> b \<le> i - 1 + 1" using "1.IH" gt rng False by blast
        then show ?thesis by simp
      qed
    qed
  qed
qed

lemma scan_space_bound:
  "scan_space t start i = Inr (Some b) \<Longrightarrow> start + 1 < b \<and> b \<le> i + 1"
proof (induction t start i rule: scan_space.induct)
  case (1 t start i)
  note a = "1.prems"
  show ?case
  proof (cases "i > start")
    case False
    with a show ?thesis by (subst (asm) scan_space.simps) simp
  next
    case True
    note gt = this
    show ?thesis
    proof (cases "0 \<le> i \<and> i < len t")
      case False
      with a gt show ?thesis by (subst (asm) scan_space.simps) auto
    next
      case True
      note rng = this
      show ?thesis
      proof (cases "unicode_IsSpace (byte (t ! nat i))")
        case True
        with a gt rng have "b = i + 1" by (subst (asm) scan_space.simps) simp
        then show ?thesis using gt by simp
      next
        case False
        with a gt rng have "scan_space t start (i - 1) = Inr (Some b)"
          by (subst (asm) scan_space.simps) simp
        then have "start + 1 < b \<and> b \<le> i - 1 + 1" using "1.IH" gt rng False by blast
        then show ?thesis by simp
      qed
    qed
  qed
qed

lemma scan_paragraph_none:
  "CHR 0x0A \<notin> set t \<Longrightarrow> scan_paragraph t start i \<noteq> Inr (Some b)"
proof (induction t start i rule: scan_paragraph.induct)
  case (1 t start i)
  show ?case
  proof
    assume a: "scan_paragraph t start i = Inr (Some b)"
    show False
    proof (cases "i > start")
      case False
      with a show False by (subst (asm) scan_paragraph.simps) simp
    next
      case True
      note gt = this
      show False
      proof (cases "i + 1 < len t")
        case False
        with a gt have "scan_paragraph t start (i - 1) = Inr (Some b)"
          by (subst (asm) scan_paragraph.simps) simp
        then show False using "1.IH"(2) gt False "1.prems" by blast
      next
        case True
        note lt = this
        show False
        proof (cases "0 \<le> i")
          case False
          with a gt lt show False by (subst (asm) scan_paragraph.simps) simp
        next
          case True
          then have "nat i < length t" using lt by (simp add: len_def)
          then have "t ! nat i \<in> set t" by simp
          then have ne: "t ! nat i \<noteq> CHR 0x0A" using "1.prems" by metis
          with a gt lt True have "scan_paragraph t start (i - 1) = Inr (Some b)"
            by (subst (asm) scan_paragraph.simps) simp
          then show False using "1.IH"(1) gt lt True "1.prems" ne by blast
        qed
      qed
    qed
  qed
qed

lemma findSentenceBoundary_bound:
  assumes "CHR 0x0A \<notin> set t" "findSentenceBoundary t start e = Inr b"
  shows "b = e \<or> (start + 1 < b \<and> b \<le> e)"
proof (cases "e \<le> start")
  case True
  with assms(2) show ?thesis by (simp add: findSentenceBoundary_def)
next
  case False
  show ?thesis
  proof (cases "scan_sentence t start (e - 1)")
    case (Inl x)
    with assms(2) False show ?thesis by (simp add: findSentenceBoundary_def)
  next
    case (Inr r)
    note s1 = this
    show ?thesis
    proof (cases r)
      case (Some b')
      then have "b = b'" using assms(2) False s1 by (simp add: findSentenceBoundary_def)
      then show ?thesis using scan_sentence_bound[of t start "e - 1" b'] s1 Some by simp
    next
      case None
      note n1 = this
      show ?thesis
      proof (cases "scan_paragraph t start (e - 1)")
        case (Inl x)
        with assms(2) False s1 n1 show ?thesis by (simp add: findSentenceBoundary_def)
      next
        case (Inr r2)
        then have r2: "r2 = None"
          using scan_paragraph_none[OF assms(1), of start "e - 1"] by (cases r2) auto
        note s2 = Inr
        show ?thesis
        proof (cases "scan_space t start (e - 1)")
          case (Inl x)
          with assms(2) False s1 n1 s2 r2 show ?thesis by (simp add: findSentenceBoundary_def)
        next
          case (Inr r3)
          show ?thesis
          proof (cases r3)
            case None
            with assms(2) False s1 n1 s2 r2 Inr show ?thesis
              by (simp add: findSentenceBoundary_def)
          next
            case (Some b')
            then have "b = b'" using assms(2) False s1 n1 s2 r2 Inr
              by (simp add: findSentenceBoundary_def)
            then show ?thesis using scan_space_bound[of t start "e - 1" b'] Inr Some by simp
          qed
        qed
      qed
    qed
  qed
qed

lemma chunk_end_le:
  assumes "CHR 0x0A \<notin> set t" "chunk_end c t start = Inr e" "- (2 ^ 63) \<le> start + ChunkSize c"
  shows "e \<le> start + ChunkSize c \<and> e \<le> len t"
proof -
  define end0 where "end0 = i64 (start + ChunkSize c)"
  define end1 where "end1 = (if end0 > len t then len t else end0)"
  have e0: "end0 \<le> start + ChunkSize c" unfolding end0_def using assms(3) by (rule i64_le)
  have e1: "end1 \<le> start + ChunkSize c" "end1 \<le> len t" using e0 by (auto simp: end1_def)
  have ce: "chunk_end c t start =
     (if end1 < len t
      then (case findSentenceBoundary t start end1 of
              Inl x \<Rightarrow> Inl x
            | Inr sentenceEnd \<Rightarrow>
                if sentenceEnd > i64 (start + ChunkOverlap c)
                then Inr sentenceEnd else Inr end1)
      else Inr end1)"
    unfolding chunk_end_def Let_def end1_def end0_def by (rule refl)
  show ?thesis
  proof (cases "end1 < len t")
    case False
    then have "e = end1" using assms(2) unfolding ce by simp
    then show ?thesis using e1 by simp
  next
    case True
    show ?thesis
    proof (cases "findSentenceBoundary t start end1")
      case (Inl x)
      then show ?thesis using assms(2) True unfolding ce by simp
    next
      case (Inr b)
      then have "e = b \<or> e = end1" using assms(2) True unfolding ce
        by (auto split: if_splits)
      moreover have "b \<le> end1" using findSentenceBoundary_bound[OF assms(1) Inr] by auto
      ultimately show ?thesis using e1 by auto
    qed
  qed
qed

lemma next_start_progress:
  assumes "- (2 ^ 63) \<le> start + 1" "start + 1 < 2 ^ 63"
  shows "start < next_start c start e"
proof -
  have "i64 (start + 1) = start + 1" using assms by (rule i64_id)
  then show ?thesis by (auto simp: next_start_def Let_def)
qed

lemma slice_Inr:
  "slice s lo hi = Inr w \<Longrightarrow>
     0 \<le> lo \<and> lo \<le> hi \<and> hi \<le> len s \<and> w = take (nat (hi - lo)) (drop (nat lo) s)"
  by (auto simp: slice_def split: if_splits)

lemma slice_sublist: "slice s lo hi = Inr w \<Longrightarrow> sublist w s"
proof -
  assume "slice s lo hi = Inr w"
  then have w: "w = take (nat (hi - lo)) (drop (nat lo) s)" using slice_Inr by blast
  have "s = take (nat lo) s @ (w @ drop (nat (hi - lo)) (drop (nat lo) s))"
    unfolding w by (metis append_take_drop_id)
  then show ?thesis unfolding sublist_def by blast
qed

lemma slice_length: "slice s lo hi = Inr w \<Longrightarrow> int (length w) = hi - lo"
  by (auto simp: slice_def len_def split: if_splits)

lemma chunk_iter_Continue:
  assumes "chunk_iter c t m start it chunks = Continue start' it' chunks'"
  shows "\<exists>e w. start < len t \<and> it' = i64 (it + 1) \<and> it' \<le> m \<and> chunk_end c t start = Inr e \<and>
           slice t start e = Inr w \<and> chunks' = emit chunks w \<and>
           start' = next_start c start e \<and> start' < e \<and> start' < len t"
proof -
  have 1: "start < len t" using assms by (auto simp: chunk_iter_def split: if_splits)
  have 2: "\<not> i64 (it + 1) > m" using assms 1 by (auto simp: chunk_iter_def Let_def split: if_splits)
  obtain e where e: "chunk_end c t start = Inr e"
    using assms 1 2 by (cases "chunk_end c t start") (auto simp: chunk_iter_def Let_def)
  obtain w where w: "slice t start e = Inr w"
    using assms 1 2 e by (cases "slice t start e") (auto simp: chunk_iter_def Let_def)
  show ?thesis
    using assms 1 2 e w by (auto simp: chunk_iter_def Let_def emit_def split: if_splits)
qed

lemma chunk_iter_Return:
  assumes "chunk_iter c t m start it chunks = Return chunks'"
  shows "chunks' = chunks \<or>
         (\<exists>e w. chunk_end c t start = Inr e \<and> slice t start e = Inr w \<and> chunks' = emit chunks w)"
proof (cases "start < len t \<and> \<not> i64 (it + 1) > m")
  case False
  then show ?thesis using assms by (auto simp: chunk_iter_def Let_def split: if_splits)
next
  case True
  obtain e where e: "chunk_end c t start = Inr e"
    using assms True by (cases "chunk_end c t start") (auto simp: chunk_iter_def Let_def)
  obtain w where w: "slice t start e = Inr w"
    using assms True e by (cases "slice t start e") (auto simp: chunk_iter_def Let_def)
  show ?thesis
    using assms True e w by (auto simp: chunk_iter_def Let_def emit_def split: if_splits)
qed

lemma chunk_iter_soft_stop:
  "start < len t \<Longrightarrow> i64 (it + 1) > m \<Longrightarrow> chunk_iter c t m start it chunks = Return chunks"
  by (simp add: chunk_iter_def Let_def)

lemma chunk_iter_progress:
  assumes "chunk_iter c t m start it chunks = Continue start' it' chunks'" "len t < 2 ^ 63"
  shows "start < start' \<and> start' < len t"
proof -
  from chunk_iter_Continue[OF assms(1)] obtain e w where
    *: "start < len t" "slice t start e = Inr w" "start' = next_start c start e" "start' < len t"
    by blast
  have "0 \<le> start" using slice_Inr[OF *(2)] by simp
  then have "start < next_start c start e"
    using *(1) assms(2) by (intro next_start_progress) auto
  then show ?thesis using * by simp
qed

lemma ChunkText_loop_terminates:
  assumes "len t < 2 ^ 63"
  shows "\<exists>r. ChunkText_loop c t m start it chunks = Some r"
proof (induction "nat (len t - start)" arbitrary: start it chunks rule: less_induct)
  case less
  show ?case
  proof (cases "chunk_iter c t m start it chunks")
    case (Continue start' it' chunks')
    then have p: "start < start' \<and> start' < len t" using assms by (rule chunk_iter_progress)
    then have "nat (len t - start') < nat (len t - start)" by simp
    then obtain r where "ChunkText_loop c t m start' it' chunks' = Some r"
      using less by blast
    then show ?thesis using Continue by (subst ChunkText_loop.simps) simp
  next
    case (Return chunks')
    then show ?thesis by (subst ChunkText_loop.simps) simp
  next
    case (Panic e)
    then show ?thesis by (subst ChunkText_loop.simps) simp
  qed
qed

lemma ChunkText_loop_invariant:
  assumes run: "ChunkText_loop c t m start it chunks = Some (Inr out)"
    and init: "I chunks"
    and step: "\<And>start it chunks e w. I chunks \<Longrightarrow> chunk_end c t start = Inr e \<Longrightarrow>
                 slice t start e = Inr w \<Longrightarrow> I (emit chunks w)"
  shows "I out"
proof -
  have "c' = c \<and> t' = t \<and> m' = m \<longrightarrow> (\<forall>out. y = Inr out \<longrightarrow> I chunks \<longrightarrow> I out)"
    if "ChunkText_loop c' t' m' start it chunks = Some y" for c' t' m' start it chunks y
  proof (rule ChunkText_loop.raw_induct[where P = "\<lambda>c' t' m' start it chunks y.
        c' = c \<and> t' = t \<and> m' = m \<longrightarrow> (\<forall>out. y = Inr out \<longrightarrow> I chunks \<longrightarrow> I out)", OF _ that],
      goal_cases)
    case (1 loop c' t' m' start it chunks y)
    show ?case
    proof (intro impI allI)
      fix out
      assume eq: "c' = c \<and> t' = t \<and> m' = m" and y: "y = Inr out" and i: "I chunks"
      show "I out"
      proof (cases "chunk_iter c t m start it chunks")
        case (Continue start' it' chunks')
        from chunk_iter_Continue[OF this] obtain e w where
          "chunk_end c t start = Inr e" "slice t start e = Inr w" "chunks' = emit chunks w"
          by blast
        then have "I chunks'" using step i by blast
        moreover have "loop c t m start' it' chunks' = Some y"
          using 1(2) eq Continue by simp
        ultimately show ?thesis using 1(1)[of c t m start' it' chunks' y] y by simp
      next
        case (Return chunks')
        then have "out = chunks'" using 1(2) eq y by simp
        moreover have "I chunks'"
          using chunk_iter_Return[OF Return] step i by blast
        ultimately show ?thesis by simp
      next
        case (Panic e)
        then show ?thesis using 1(2) eq y by simp
      qed
    qed
  qed
  then show ?thesis using run init by blast
qed

lemmas eval_defs = cleanText_def TrimSpace_def trim_runes_def Fields_def runes.simps byte_def unicode_IsSpace_def
  is_space_rune_def ChunkText_def len_def i64_def chunk_iter_def chunk_end_def next_start_def
  findSentenceBoundary_def scan_sentence.simps scan_paragraph.simps scan_space.simps
  sentenceEnders_def slice_def Let_def

lemma example_cleanText: "cleanText ''Go  is fun.\<newline> Yes.'' = ''Go is fun. Yes.''"
  by (simp add: eval_defs)

lemma example_ChunkText:
  "ChunkText \<lparr>ChunkSize = 8, ChunkOverlap = 2\<rparr> ''Go  is fun.\<newline> Yes.'' =
   Some (Inr [''Go is'', ''s fun.'', ''n. Yes.'', ''s.'', ''.''])"
  by (simp add: eval_defs ChunkText_loop.simps)

lemma example_chunk_iter:
  "chunk_iter \<lparr>ChunkSize = 8, ChunkOverlap = 2\<rparr> ''Go is fun. Yes.'' 1002 0 0 [] =
   Continue 4 1 [''Go is'']"
  by (simp add: eval_defs)

lemma ChunkText_loop_case:
  "len (cleanText t) > ChunkSize c \<Longrightarrow> cleanText t \<noteq> [] \<Longrightarrow>
   ChunkText c t =
     ChunkText_loop c (cleanText t)
       (i64 (len (cleanText t) div max (i64 (ChunkSize c - ChunkOverlap c)) 1 + 1000)) 0 0 []"
proof -
  assume a: "len (cleanText t) > ChunkSize c" "cleanText t \<noteq> []"
  have "(if i64 (ChunkSize c - ChunkOverlap c) \<le> 0 then 1 else i64 (ChunkSize c - ChunkOverlap c))
      = max (i64 (ChunkSize c - ChunkOverlap c)) 1"
    by (simp add: max_def)
  then show ?thesis using a by (simp add: ChunkText_def Let_def)
qed

text \<open>
  Claim C3. When the cleaned text is no longer than the chunk size, \<open>ChunkText\<close> returns
  the cleaned text as its only chunk, and the empty list when the cleaned text is empty.
\<close>

theorem ChunkText_short_text:
  assumes "len (cleanText t) \<le> ChunkSize c"
  shows "ChunkText c t = Some (Inr (if cleanText t = [] then [] else [cleanText t]))"
  using assms by (simp add: ChunkText_def Let_def)

theorem ChunkText_short_text_witness:
  "len (cleanText ''Go  is fun.\<newline> Yes.'') \<le> ChunkSize \<lparr>ChunkSize = 20, ChunkOverlap = 5\<rparr> \<and>
   ChunkText \<lparr>ChunkSize = 20, ChunkOverlap = 5\<rparr> ''Go  is fun.\<newline> Yes.'' =
     Some (Inr [''Go is fun. Yes.''])"
proof -
  have h: "len (cleanText ''Go  is fun.\<newline> Yes.'') \<le> ChunkSize \<lparr>ChunkSize = 20, ChunkOverlap = 5\<rparr>"
    by (simp add: example_cleanText len_def)
  from ChunkText_short_text[OF h] show ?thesis using h by (simp add: example_cleanText)
qed

text \<open>
  Claim C10. For a positive chunk size, every chunk returned by \<open>ChunkText\<close> has at most
  \<open>ChunkSize\<close> bytes: the cleaned text contains no newline, so on it
  \<open>findSentenceBoundary\<close> never returns a position beyond the window end it is given.
  (The overlap plays no part.)
\<close>

theorem chunk_length_le_size:
  assumes "0 < ChunkSize c" "ChunkText c t = Some (Inr chunks)"
  shows "(\<forall>ch \<in> set chunks. len ch \<le> ChunkSize c) \<and>
         CHR 0x0A \<notin> set (cleanText t) \<and>
         (\<forall>start e b. findSentenceBoundary (cleanText t) start e = Inr b \<longrightarrow> b \<le> e)"
proof -
  let ?t = "cleanText t"
  have nl: "CHR 0x0A \<notin> set ?t" by (rule cleanText_no_newline)
  have fb: "\<forall>start e b. findSentenceBoundary ?t start e = Inr b \<longrightarrow> b \<le> e"
    using findSentenceBoundary_bound[OF nl] by fastforce
  have "\<forall>ch \<in> set chunks. len ch \<le> ChunkSize c"
  proof (cases "?t = [] \<or> len ?t \<le> ChunkSize c")
    case True
    then have "chunks = [] \<or> (chunks = [?t] \<and> len ?t \<le> ChunkSize c)"
      using assms(2) by (auto simp: ChunkText_def Let_def split: if_splits)
    then show ?thesis by auto
  next
    case False
    then have run: "ChunkText_loop c ?t
       (i64 (len ?t div max (i64 (ChunkSize c - ChunkOverlap c)) 1 + 1000)) 0 0 [] = Some (Inr chunks)"
      using assms(2) ChunkText_loop_case[of c t] by simp
    show ?thesis
    proof (rule ChunkText_loop_invariant[OF run, where I = "\<lambda>chs :: string list. \<forall>ch \<in> set chs. len ch \<le> ChunkSize c"])
      show "\<forall>ch \<in> set ([] :: string list). len ch \<le> ChunkSize c" by simp
    next
      fix start it e w and chs :: "string list"
      assume i: "\<forall>ch \<in> set chs. len ch \<le> ChunkSize c"
        and e: "chunk_end c ?t start = Inr e" and w: "slice ?t start e = Inr w"
      have s0: "0 \<le> start" using slice_Inr[OF w] by simp
      then have "- (2 ^ 63) \<le> start + ChunkSize c" using assms(1) by simp
      then have "e \<le> start + ChunkSize c" using chunk_end_le[OF nl e] by simp
      then have "int (length w) \<le> ChunkSize c" using slice_length[OF w] by simp
      then have "len (TrimSpace w) \<le> ChunkSize c"
        using TrimSpace_length[of w] by (simp add: len_def)
      then show "\<forall>ch \<in> set (emit chs w). len ch \<le> ChunkSize c"
        using i by (auto simp: emit_def)
    qed
  qed
  then show ?thesis using nl fb by blast
qed

theorem chunk_length_le_size_witness:
  "(0 < ChunkSize \<lparr>ChunkSize = 8, ChunkOverlap = 2\<rparr> \<and>
    ChunkText \<lparr>ChunkSize = 8, ChunkOverlap = 2\<rparr> ''Go  is fun.\<newline> Yes.'' =
      Some (Inr [''Go is'', ''s fun.'', ''n. Yes.'', ''s.'', ''.''])) \<and>
   list_all (\<lambda>ch. len ch \<le> 8) [''Go is'', ''s fun.'', ''n. Yes.'', ''s.'', ''.''] \<and>
   CHR 0x0A \<notin> set (cleanText ''Go  is fun.\<newline> Yes.'')"
proof -
  have h: "0 < ChunkSize \<lparr>ChunkSize = 8, ChunkOverlap = 2\<rparr>" by simp
  from chunk_length_le_size[OF h example_ChunkText] show ?thesis
    using h example_ChunkText by (simp add: list_all_iff)
qed

text \<open>
  Claim C5. Chunking terminates on every input (for a Go string, whose length is below
  \<open>2 ^ 63\<close>): every iteration that continues moves \<open>start\<close> forward by at least one and
  keeps the iteration count within \<open>maxIterations\<close>; once the count would exceed
  \<open>maxIterations\<close> the loop returns the chunks produced so far; and \<open>maxIterations\<close> is
  \<open>len div max (ChunkSize - ChunkOverlap) 1 + 1000\<close> in 64-bit arithmetic.
\<close>

theorem ChunkText_terminates:
  assumes "len (cleanText t) < 2 ^ 63"
  shows "(\<exists>r. ChunkText c t = Some r) \<and>
         (\<forall>m start it chunks start' it' chunks'.
            chunk_iter c (cleanText t) m start it chunks = Continue start' it' chunks' \<longrightarrow>
            start + 1 \<le> start' \<and> it' = i64 (it + 1) \<and> it' \<le> m) \<and>
         (\<forall>m start it chunks.
            start < len (cleanText t) \<and> m < i64 (it + 1) \<longrightarrow>
            ChunkText_loop c (cleanText t) m start it chunks = Some (Inr chunks)) \<and>
         (ChunkSize c < len (cleanText t) \<longrightarrow>
            ChunkText c t =
              ChunkText_loop c (cleanText t)
                (i64 (len (cleanText t) div max (i64 (ChunkSize c - ChunkOverlap c)) 1 + 1000))
                0 0 [])"
proof -
  let ?t = "cleanText t"
  have 1: "\<exists>r. ChunkText c t = Some r"
  proof (cases "?t = [] \<or> len ?t \<le> ChunkSize c")
    case True
    then show ?thesis by (auto simp: ChunkText_def Let_def)
  next
    case False
    then show ?thesis
      using ChunkText_loop_case[of c t] ChunkText_loop_terminates[OF assms] by simp
  qed
  have 2: "start + 1 \<le> start' \<and> it' = i64 (it + 1) \<and> it' \<le> m"
    if "chunk_iter c ?t m start it chunks = Continue start' it' chunks'"
    for m start it chunks start' it' chunks'
    using chunk_iter_progress[OF that assms] chunk_iter_Continue[OF that] by auto
  have 3: "ChunkText_loop c ?t m start it chunks = Some (Inr chunks)"
    if "start < len ?t \<and> m < i64 (it + 1)" for m start it chunks
    using that by (subst ChunkText_loop.simps) (simp add: chunk_iter_soft_stop)
  have 4: "ChunkText c t = ChunkText_loop c ?t
      (i64 (len ?t div max (i64 (ChunkSize c - ChunkOverlap c)) 1 + 1000)) 0 0 []"
    if "ChunkSize c < len ?t"
  proof (cases "?t = []")
    case False
    then show ?thesis using that by (rule ChunkText_loop_case[rotated])
  next
    case True
    have "chunk_iter c [] m 0 0 [] = Return []" for m
      by (simp add: chunk_iter_def len_def)
    then have "ChunkText_loop c [] m 0 0 [] = Some (Inr [])" for m
      by (subst ChunkText_loop.simps) simp
    then show ?thesis using True by (simp add: ChunkText_def)
  qed
  show ?thesis using 1 2 3 4 by blast
qed

theorem ChunkText_terminates_witness:
  "len (cleanText ''Go  is fun.\<newline> Yes.'') < 2 ^ 63 \<and>
   ChunkText \<lparr>ChunkSize = 8, ChunkOverlap = 2\<rparr> ''Go  is fun.\<newline> Yes.'' =
     Some (Inr [''Go is'', ''s fun.'', ''n. Yes.'', ''s.'', ''.'']) \<and>
   (chunk_iter \<lparr>ChunkSize = 8, ChunkOverlap = 2\<rparr> ''Go is fun. Yes.'' 1002 0 0 [] =
      Continue 4 1 [''Go is''] \<and> (0 :: int) + 1 \<le> 4 \<and> (1 :: int) \<le> 1002) \<and>
   ChunkText_loop \<lparr>ChunkSize = 8, ChunkOverlap = 2\<rparr> ''Go is fun. Yes.'' 0 4 0 [''Go is''] =
     Some (Inr [''Go is''])"
proof -
  have h: "len (cleanText ''Go  is fun.\<newline> Yes.'') < 2 ^ 63"
    by (simp add: example_cleanText len_def)
  have s: "(4 :: int) < len ''Go is fun. Yes.'' \<and> (0 :: int) < i64 (0 + 1)"
    by (simp add: len_def i64_def)
  from ChunkText_terminates[OF h, of "\<lparr>ChunkSize = 8, ChunkOverlap = 2\<rparr>"]
  have "ChunkText_loop \<lparr>ChunkSize = 8, ChunkOverlap = 2\<rparr> ''Go is fun. Yes.'' 0 4 0 [''Go is''] =
     Some (Inr [''Go is''])"
    using s unfolding example_cleanText by blast
  then show ?thesis using h example_ChunkText example_chunk_iter by simp
qed

text \<open>
  Claim C4. Every chunk returned by \<open>ChunkText\<close> is non-empty, is left unchanged by
  \<open>TrimSpace\<close>, and is a contiguous substring of the cleaned text. Every iteration of the
  loop that continues does so from a strictly larger \<open>start\<close>, and the chunk it appends (if
  any) is the trimmed window \<open>text[start:end]\<close> of that \<open>start\<close>.
\<close>

theorem chunks_trimmed_substrings:
  assumes "ChunkText c t = Some (Inr chunks)"
  shows "(\<forall>ch \<in> set chunks. ch \<noteq> [] \<and> TrimSpace ch = ch \<and> sublist ch (cleanText t)) \<and>
         (\<forall>m start it chs start' it' chs'.
            len (cleanText t) < 2 ^ 63 \<and>
            chunk_iter c (cleanText t) m start it chs = Continue start' it' chs' \<longrightarrow>
            start < start' \<and>
            (\<exists>e w. slice (cleanText t) start e = Inr w \<and>
               chs' = (if TrimSpace w \<noteq> [] then chs @ [TrimSpace w] else chs)))"
proof -
  let ?t = "cleanText t"
  let ?Q = "\<lambda>ch. ch \<noteq> [] \<and> TrimSpace ch = ch \<and> sublist ch ?t"
  have 1: "\<forall>ch \<in> set chunks. ?Q ch"
  proof (cases "?t = [] \<or> len ?t \<le> ChunkSize c")
    case True
    then have "chunks = [] \<or> (chunks = [?t] \<and> ?t \<noteq> [])"
      using assms by (auto simp: ChunkText_def Let_def split: if_splits)
    then show ?thesis using cleanText_trimmed[of t] by auto
  next
    case False
    then have run: "ChunkText_loop c ?t
       (i64 (len ?t div max (i64 (ChunkSize c - ChunkOverlap c)) 1 + 1000)) 0 0 [] = Some (Inr chunks)"
      using assms ChunkText_loop_case[of c t] by simp
    show ?thesis
    proof (rule ChunkText_loop_invariant[OF run, where I = "\<lambda>chs. \<forall>ch \<in> set chs. ?Q ch"])
      show "\<forall>ch \<in> set []. ?Q ch" by simp
    next
      fix start it e w and chs :: "string list"
      assume i: "\<forall>ch \<in> set chs. ?Q ch" and w: "slice ?t start e = Inr w"
      have "sublist (TrimSpace w) ?t"
        using TrimSpace_sublist[of w] slice_sublist[OF w] by (rule sublist_order.order_trans)
      then have "TrimSpace w \<noteq> [] \<longrightarrow> ?Q (TrimSpace w)" by (simp add: TrimSpace_idem)
      then show "\<forall>ch \<in> set (emit chs w). ?Q ch" using i by (auto simp: emit_def)
    qed
  qed
  have 2: "start < start' \<and>
            (\<exists>e w. slice ?t start e = Inr w \<and>
               chs' = (if TrimSpace w \<noteq> [] then chs @ [TrimSpace w] else chs))"
    if "len ?t < 2 ^ 63 \<and> chunk_iter c ?t m start it chs = Continue start' it' chs'"
    for m start it chs start' it' chs'
  proof -
    from that have l: "len ?t < 2 ^ 63"
      and st: "chunk_iter c ?t m start it chs = Continue start' it' chs'" by auto
    from chunk_iter_Continue[OF st] obtain e w where
      "slice ?t start e = Inr w" "chs' = emit chs w" by blast
    then show ?thesis using chunk_iter_progress[OF st l] by (auto simp: emit_def)
  qed
  show ?thesis using 1 2 by blast
qed

theorem chunks_trimmed_substrings_witness:
  "ChunkText \<lparr>ChunkSize = 8, ChunkOverlap = 2\<rparr> ''Go  is fun.\<newline> Yes.'' =
     Some (Inr [''Go is'', ''s fun.'', ''n. Yes.'', ''s.'', ''.'']) \<and>
   list_all (\<lambda>ch. ch \<noteq> [] \<and> TrimSpace ch = ch \<and> sublist ch ''Go is fun. Yes.'')
     [''Go is'', ''s fun.'', ''n. Yes.'', ''s.'', ''.''] \<and>
   ((len ''Go is fun. Yes.'' < 2 ^ 63 \<and>
     chunk_iter \<lparr>ChunkSize = 8, ChunkOverlap = 2\<rparr> ''Go is fun. Yes.'' 1002 0 0 [] =
       Continue 4 1 [''Go is'']) \<and> (0 :: int) < 4)"
proof -
  have h: "len ''Go is fun. Yes.'' < 2 ^ 63 \<and>
     chunk_iter \<lparr>ChunkSize = 8, ChunkOverlap = 2\<rparr> ''Go is fun. Yes.'' 1002 0 0 [] =
       Continue 4 1 [''Go is'']"
    using example_chunk_iter by (simp add: len_def)
  from chunks_trimmed_substrings[OF example_ChunkText] show ?thesis
    using h example_ChunkText unfolding example_cleanText by (simp add: list_all_iff)
qed

section \<open>Properties of the similarity search\<close>

lemma score_loop_eq:
  "score_loop q chunks results =
     results @ map (\<lambda>c. \<lparr>Chunk = c, Score = cosineSimilarity q (Embedding c)\<rparr>)
                   (filter (\<lambda>c. length (Embedding c) = length q) chunks)"
  by (induction chunks arbitrary: results) auto


lemma sort_inner_stop: "\<not> j < length rs \<Longrightarrow> sort_inner rs i j = rs"
  by (subst sort_inner.simps) simp

lemma sort_inner_step:
  "j < length rs \<Longrightarrow>
   sort_inner rs i j =
     sort_inner (if Score (rs ! j) > Score (rs ! i) then rs[i := rs ! j, j := rs ! i] else rs) i (j + 1)"
  by (subst sort_inner.simps) simp

lemma sort_outer_stop: "\<not> i + 1 < length rs \<Longrightarrow> sort_outer rs i = rs"
  by (subst sort_outer.simps) simp

lemma sort_outer_step:
  "i + 1 < length rs \<Longrightarrow> sort_outer rs i = sort_outer (sort_inner rs i (i + 1)) (i + 1)"
  by (subst sort_outer.simps) simp

lemma mset_drop_of_take:
  assumes "mset xs = mset ys" "take i xs = take i ys"
  shows "mset (drop i xs) = mset (drop i ys)"
proof -
  have "mset (take i xs) + mset (drop i xs) = mset (take i ys) + mset (drop i ys)"
    using assms(1) by (simp flip: mset_append)
  then show ?thesis using assms(2) by simp
qed

lemma sort_inner_props:
  "i < j \<Longrightarrow> j \<le> length rs \<Longrightarrow>
   (\<forall>k. i < k \<and> k < j \<longrightarrow> Score (rs ! k) \<le> Score (rs ! i)) \<Longrightarrow>
   mset (sort_inner rs i j) = mset rs \<and>
   take i (sort_inner rs i j) = take i rs \<and>
   (\<forall>k. i < k \<and> k < length rs \<longrightarrow> Score (sort_inner rs i j ! k) \<le> Score (sort_inner rs i j ! i))"
proof (induction rs i j rule: sort_inner.induct)
  case (1 results i j)
  show ?case
  proof (cases "j < length results")
    case False
    then have "sort_inner results i j = results" by (rule sort_inner_stop)
    moreover have "j = length results" using False "1.prems" by simp
    ultimately show ?thesis using "1.prems" by simp
  next
    case True
    define rs' where "rs' = (if Score (results ! j) > Score (results ! i)
              then results[i := results ! j, j := results ! i] else results)"
    have len: "length rs' = length results" by (simp add: rs'_def)
    have ms: "mset rs' = mset results" using True "1.prems" by (simp add: rs'_def mset_swap)
    have tk: "take i rs' = take i results" using "1.prems" by (simp add: rs'_def)
    have inv: "\<forall>k. i < k \<and> k < j + 1 \<longrightarrow> Score (rs' ! k) \<le> Score (rs' ! i)"
    proof (intro allI impI)
      fix k assume k: "i < k \<and> k < j + 1"
      show "Score (rs' ! k) \<le> Score (rs' ! i)"
      proof (cases "Score (results ! j) > Score (results ! i)")
        case sw: True
        then have r: "rs' = results[i := results ! j, j := results ! i]" by (simp add: rs'_def)
        show ?thesis
        proof (cases "k = j")
          case True
          then show ?thesis using sw r \<open>j < length results\<close> "1.prems" by (simp add: nth_list_update)
        next
          case False
          then have "k < j" using k by simp
          then have "Score (results ! k) \<le> Score (results ! i)" using k "1.prems" by simp
          then have "Score (results ! k) \<le> Score (results ! j)" using sw by linarith
          then show ?thesis using r \<open>j < length results\<close> "1.prems" k \<open>k < j\<close>
            by (simp add: nth_list_update)
        qed
      next
        case ns: False
        then have r: "rs' = results" by (simp add: rs'_def)
        show ?thesis
        proof (cases "k = j")
          case True
          then show ?thesis using ns r by simp
        next
          case False
          then have "k < j" using k by simp
          then show ?thesis using r k "1.prems" by simp
        qed
      qed
    qed
    have IH: "mset (sort_inner rs' i (j + 1)) = mset rs' \<and>
       take i (sort_inner rs' i (j + 1)) = take i rs' \<and>
       (\<forall>k. i < k \<and> k < length rs' \<longrightarrow>
         Score (sort_inner rs' i (j + 1) ! k) \<le> Score (sort_inner rs' i (j + 1) ! i))"
      unfolding rs'_def
    proof (rule "1.IH"[OF True])
      show "i < j + 1" using "1.prems" by simp
      show "j + 1 \<le> length (if Score (results ! i) < Score (results ! j)
          then results[i := results ! j, j := results ! i] else results)"
        using True by simp
      show "\<forall>k. i < k \<and> k < j + 1 \<longrightarrow>
        Score ((if Score (results ! i) < Score (results ! j)
          then results[i := results ! j, j := results ! i] else results) ! k)
        \<le> Score ((if Score (results ! i) < Score (results ! j)
          then results[i := results ! j, j := results ! i] else results) ! i)"
        using inv unfolding rs'_def .
    qed
    have unf: "sort_inner results i j = sort_inner rs' i (j + 1)"
      unfolding rs'_def using True by (rule sort_inner_step)
    show ?thesis unfolding unf using IH ms tk len by simp
  qed
qed

lemma nth_in_drop_set: "i \<le> k \<Longrightarrow> k < length xs \<Longrightarrow> xs ! k \<in> set (drop i xs)"
proof -
  assume a: "i \<le> k" "k < length xs"
  then have "drop i xs ! (k - i) = xs ! k" by simp
  moreover have "k - i < length (drop i xs)" using a by simp
  ultimately show ?thesis by (metis nth_mem)
qed

lemma in_drop_set_nth: "x \<in> set (drop i xs) \<Longrightarrow> \<exists>k. i \<le> k \<and> k < length xs \<and> xs ! k = x"
proof -
  assume "x \<in> set (drop i xs)"
  then obtain m where m: "m < length (drop i xs)" "drop i xs ! m = x"
    by (auto simp: in_set_conv_nth)
  then have "i \<le> i + m \<and> i + m < length xs \<and> xs ! (i + m) = x" by auto
  then show ?thesis by blast
qed

lemma sort_outer_props:
  "dominated rs i \<Longrightarrow>
   mset (sort_outer rs i) = mset rs \<and> dominated (sort_outer rs i) (length rs)"
proof (induction rs i rule: sort_outer.induct)
  case (1 results i)
  show ?case
  proof (cases "i + 1 < length results")
    case False
    have "dominated results (length results)"
      unfolding dominated_def
    proof (intro allI impI)
      fix p k assume a: "p < length results \<and> p < k \<and> k < length results"
      then have "p < i" using False by linarith
      then show "Score (results ! k) \<le> Score (results ! p)"
        using "1.prems" a unfolding dominated_def by blast
    qed
    then show ?thesis using sort_outer_stop[OF False] by simp
  next
    case True
    define rs' where "rs' = sort_inner results i (i + 1)"
    have P: "mset rs' = mset results \<and> take i rs' = take i results \<and>
        (\<forall>k. i < k \<and> k < length results \<longrightarrow> Score (rs' ! k) \<le> Score (rs' ! i))"
      unfolding rs'_def using sort_inner_props[of i "i + 1" results] True by simp
    have len: "length rs' = length results" by (simp add: rs'_def length_sort_inner)
    have "mset (drop i rs') = mset (drop i results)"
      using mset_drop_of_take[of rs' results i] P by simp
    then have dr: "set (drop i rs') = set (drop i results)"
      by (rule mset_eq_setD)
    have dom: "dominated rs' (i + 1)"
      unfolding dominated_def
    proof (intro allI impI)
      fix p k assume a: "p < i + 1 \<and> p < k \<and> k < length rs'"
      show "Score (rs' ! k) \<le> Score (rs' ! p)"
      proof (cases "p = i")
        case True
        then show ?thesis using P a len by simp
      next
        case False
        then have pi: "p < i" using a by simp
        have "take i rs' ! p = take i results ! p" using P by simp
        then have rp: "rs' ! p = results ! p" using pi by simp
        show ?thesis
        proof (cases "k < i")
          case True
          have "take i rs' ! k = take i results ! k" using P by simp
          then have "rs' ! k = results ! k" using True by simp
          then show ?thesis using rp "1.prems" a pi len unfolding dominated_def by simp
        next
          case False
          then have "rs' ! k \<in> set (drop i rs')"
            using a by (intro nth_in_drop_set) auto
          then have "rs' ! k \<in> set (drop i results)" using dr by simp
          then obtain m where m: "i \<le> m" "m < length results" "results ! m = rs' ! k"
            using in_drop_set_nth[of "rs' ! k" i results] by blast
          have "p < i \<and> p < m \<and> m < length results" using m pi by simp
          then have "Score (results ! m) \<le> Score (results ! p)"
            using "1.prems" unfolding dominated_def by blast
          then show ?thesis using rp m by simp
        qed
      qed
    qed
    have IH: "mset (sort_outer rs' (i + 1)) = mset rs' \<and> dominated (sort_outer rs' (i + 1)) (length rs')"
      using "1.IH"[OF True] dom unfolding rs'_def by blast
    have unf: "sort_outer results i = sort_outer rs' (i + 1)"
      unfolding rs'_def using True by (rule sort_outer_step)
    show ?thesis unfolding unf using IH P len by simp
  qed
qed

lemma dominated_sorted: "dominated rs (length rs) \<Longrightarrow> sorted_wrt (\<lambda>x y. Score y \<le> Score x) rs"
  unfolding dominated_def sorted_wrt_iff_nth_less by auto

lemma sort_outer_sorted:
  "mset (sort_outer rs 0) = mset rs \<and> sorted_wrt (\<lambda>x y. Score y \<le> Score x) (sort_outer rs 0)"
proof -
  have "dominated rs 0" by (simp add: dominated_def)
  from sort_outer_props[OF this]
  have a: "mset (sort_outer rs 0) = mset rs" and b: "dominated (sort_outer rs 0) (length rs)" by auto
  have "length (sort_outer rs 0) = length rs" using a by (rule mset_eq_length)
  then show ?thesis using a b dominated_sorted[of "sort_outer rs 0"] by simp
qed


lemma SimpleVectorSearch_ok:
  assumes "\<not> find_fails s" "\<not> decode_fails s" "0 \<le> k"
  shows "SimpleVectorSearch s q k bookID =
     Inr (take (nat k) (sort_outer (map (\<lambda>c. \<lparr>Chunk = c, Score = cosineSimilarity q (Embedding c)\<rparr>)
       (filter (\<lambda>c. length (Embedding c) = length q)
         (filter (\<lambda>c. bookID = [] \<or> BookID c = bookID) (collection s)))) 0))"
proof -
  have m: "filter (matches (if bookID \<noteq> [] then [''book_id'' \<mapsto> bookID] else Map.empty)) (collection s)
      = filter (\<lambda>c. bookID = [] \<or> BookID c = bookID) (collection s)"
    by (rule filter_cong) (auto simp: matches_def)
  show ?thesis
    using assms unfolding SimpleVectorSearch_def Find_def cursor_All_def Let_def m
    by (simp add: score_loop_eq length_sort_outer)
qed

lemma example_search:
  "SimpleVectorSearch example_store [1, 0] 2 ''b1'' =
     Inr [\<lparr>Chunk = example_chunk ''c3'' ''b1'' [1, 0], Score = 1\<rparr>,
          \<lparr>Chunk = example_chunk ''c5'' ''b1'' [3 / 5, 4 / 5], Score = 3 / 5\<rparr>]"
  by (simp add: SimpleVectorSearch_def Find_def cursor_All_def matches_def example_store_def
      example_chunk_def cosineSimilarity_def sqrt_f32_def eval_nat_numeral
      sort_outer.simps sort_inner.simps)


lemma SimpleVectorSearch_find_fails:
  "find_fails s \<Longrightarrow> SimpleVectorSearch s q k bookID = Inl FetchChunksFailed"
  by (simp add: SimpleVectorSearch_def Find_def)

lemma SimpleVectorSearch_decode_fails:
  "\<not> find_fails s \<Longrightarrow> decode_fails s \<Longrightarrow> SimpleVectorSearch s q k bookID = Inl DecodeChunksFailed"
  by (simp add: SimpleVectorSearch_def Find_def cursor_All_def)

lemma SimpleVectorSearch_negative:
  "\<not> find_fails s \<Longrightarrow> \<not> decode_fails s \<Longrightarrow> k < 0 \<Longrightarrow>
   SimpleVectorSearch s q k bookID = Inl SliceBoundsOutOfRange"
  by (simp add: SimpleVectorSearch_def Find_def cursor_All_def Let_def)

text \<open>
  Claim C2. For a non-empty document filter, every search result returned by
  \<open>SimpleVectorSearch\<close> carries a chunk whose \<open>BookID\<close> equals the filter.
\<close>

theorem search_results_match_filter:
  assumes "bookID \<noteq> []" "SimpleVectorSearch s q k bookID = Inr results"
  shows "\<forall>r \<in> set results. BookID (Chunk r) = bookID"
proof
  fix r assume r: "r \<in> set results"
  let ?scored = "map (\<lambda>c. \<lparr>Chunk = c, Score = cosineSimilarity q (Embedding c)\<rparr>)
       (filter (\<lambda>c. length (Embedding c) = length q)
         (filter (\<lambda>c. bookID = [] \<or> BookID c = bookID) (collection s)))"
  have ff: "\<not> find_fails s"
    using assms(2) SimpleVectorSearch_find_fails[of s q k bookID] by auto
  have df: "\<not> decode_fails s"
    using assms(2) ff SimpleVectorSearch_decode_fails[of s q k bookID] by auto
  note ok = ff df
  have k: "0 \<le> k"
    using assms(2) SimpleVectorSearch_negative[OF ok, of k q bookID] by (cases "0 \<le> k") auto
  have "results = take (nat k) (sort_outer ?scored 0)"
    using SimpleVectorSearch_ok[OF ok k, of q bookID] assms(2) by simp
  then have "r \<in> set (sort_outer ?scored 0)" using r by (auto dest: in_set_takeD)
  then have "r \<in> set ?scored"
    using sort_outer_sorted[of ?scored] mset_eq_setD[of "sort_outer ?scored 0" ?scored] by simp
  then show "BookID (Chunk r) = bookID" using assms(1) by auto
qed

theorem search_results_match_filter_witness:
  "(''b1'' \<noteq> [] \<and>
    SimpleVectorSearch example_store [1, 0] 2 ''b1'' =
      Inr [\<lparr>Chunk = example_chunk ''c3'' ''b1'' [1, 0], Score = 1\<rparr>,
           \<lparr>Chunk = example_chunk ''c5'' ''b1'' [3 / 5, 4 / 5], Score = 3 / 5\<rparr>]) \<and>
   list_all (\<lambda>r. BookID (Chunk r) = ''b1'')
     [\<lparr>Chunk = example_chunk ''c3'' ''b1'' [1, 0], Score = 1\<rparr>,
      \<lparr>Chunk = example_chunk ''c5'' ''b1'' [3 / 5, 4 / 5], Score = 3 / 5\<rparr>]"
proof -
  have h: "''b1'' \<noteq> []" by simp
  note e = example_search
  from search_results_match_filter[OF h e] show ?thesis
    using e by (simp add: list_all_iff)
qed



section \<open>Properties of cosine similarity, the embedder and the query handler\<close>

subsection \<open>Cosine similarity\<close>

lemma cosine_loop_sums:
  "length a = length b \<Longrightarrow>
   cosine_loop a b (d, na, nb) =
     (d + (\<Sum>(x, y) \<leftarrow> zip a b. x * y), na + (\<Sum>x \<leftarrow> a. x * x), nb + (\<Sum>y \<leftarrow> b. y * y))"
proof (induction a b arbitrary: d na nb rule: list_induct2)
  case Nil
  then show ?case by simp
next
  case (Cons x xs y ys)
  then show ?case by (simp add: algebra_simps)
qed

lemma sum_zip_commute:
  "length a = length b \<Longrightarrow> (\<Sum>(x, y) \<leftarrow> zip a b. x * y) = (\<Sum>(x, y) \<leftarrow> zip b a. x * (y :: rat))"
  by (induction a b rule: list_induct2) (simp_all add: mult.commute)

lemma cosineSimilarity_eq:
  "length a = length b \<Longrightarrow>
   cosineSimilarity a b =
     (if (\<Sum>x \<leftarrow> a. x * x) = 0 \<or> (\<Sum>y \<leftarrow> b. y * y) = 0 then 0
      else (\<Sum>(x, y) \<leftarrow> zip a b. x * y) / (sqrt_f32 (\<Sum>x \<leftarrow> a. x * x) * sqrt_f32 (\<Sum>y \<leftarrow> b. y * y)))"
  by (simp add: cosineSimilarity_def cosine_loop_sums)

lemma cosineSimilarity_symmetric: "cosineSimilarity a b = cosineSimilarity b a"
proof (cases "length a = length b")
  case False
  then show ?thesis by (auto simp: cosineSimilarity_def)
next
  case True
  then show ?thesis
    using sum_zip_commute[OF True] by (simp add: cosineSimilarity_eq mult.commute)
qed

lemma newton_lower: "0 < x \<Longrightarrow> 0 < z \<Longrightarrow> z / 2 ^ n \<le> newton n x z"
proof (induction n arbitrary: z)
  case 0
  then show ?case by simp
next
  case (Suc n)
  have pos: "0 < (z + x / z) / 2" using Suc.prems by (simp add: add_pos_pos)
  have "z / 2 \<le> (z + x / z) / 2" using Suc.prems by simp
  then have "z / 2 ^ Suc n \<le> ((z + x / z) / 2) / 2 ^ n"
    by (simp add: field_simps)
  also have "\<dots> \<le> newton n x ((z + x / z) / 2)"
    using Suc.IH[OF Suc.prems(1) pos] .
  finally show ?case by simp
qed

lemma sqrt_f32_lower: "0 < x \<Longrightarrow> x / 1024 \<le> sqrt_f32 x"
  using newton_lower[of x x 10] by (simp add: sqrt_f32_def)

lemma sqrt_f32_lower_small: "0 < x \<Longrightarrow> 1 / 1024 \<le> sqrt_f32 x"
proof -
  assume x: "0 < x"
  have "sqrt_f32 x = newton 9 x ((x + x / x) / 2)"
    using x by (simp add: sqrt_f32_def eval_nat_numeral)
  also have "(x + x / x) / 2 = (x + 1) / 2" using x by simp
  finally have s: "sqrt_f32 x = newton 9 x ((x + 1) / 2)" .
  have "((x + 1) / 2) / 2 ^ 9 \<le> newton 9 x ((x + 1) / 2)"
    using x by (intro newton_lower) auto
  moreover have "1 / 1024 \<le> ((x + 1) / 2) / 2 ^ 9" using x by simp
  ultimately show ?thesis using s by simp
qed

text \<open>
  Claim C7 (the code departs from it). The similarity of the one-component vector
  \<open>[1000000]\<close> with itself is below \<open>1 / 1000\<close>: ten Newton steps from \<open>z = x\<close> do not
  reach the square root of \<open>10 ^ 12\<close>.
\<close>

theorem cosineSimilarity_self_large:
  "cosineSimilarity [1000000] [1000000] < 1 / 1000"
proof -
  have s: "1000000000000 / 1024 \<le> sqrt_f32 1000000000000"
    by (rule sqrt_f32_lower) simp
  then have "(1000000000000 / 1024) * (1000000000000 / 1024)
      \<le> sqrt_f32 1000000000000 * sqrt_f32 1000000000000"
    by (intro mult_mono) auto
  then have "1000 * 1000000000000 < sqrt_f32 1000000000000 * sqrt_f32 1000000000000"
    by simp
  moreover have "cosineSimilarity [1000000] [1000000]
      = 1000000000000 / (sqrt_f32 1000000000000 * sqrt_f32 1000000000000)"
    using s by (auto simp add: cosineSimilarity_def)
  ultimately show ?thesis
    by (simp add: field_simps)
qed

subsection \<open>The local embedder on a text of one word and many punctuation tokens\<close>

lemma runes_ascii_Cons: "byte c < 0x80 \<Longrightarrow> runes (c # rest) = (byte c, [c]) # runes rest"
  by (simp add: runes_Cons)

lemma runes_dots:
  "runes (concat (replicate k '' .'')) = concat (replicate k [(0x20, '' ''), (0x2E, ''.'')])"
proof (induction k)
  case 0
  then show ?case by simp
next
  case (Suc k)
  have "runes (CHR '' '' # CHR ''.'' # concat (replicate k '' .''))
      = (0x20, '' '') # (0x2E, ''.'') # runes (concat (replicate k '' .''))"
    by (simp add: runes_ascii_Cons byte_def)
  then show ?case using Suc by simp
qed

lemma FieldsFunc_loop_dots:
  "FieldsFunc_loop (concat (replicate k [(0x20, '' ''), (0x2E, ''.'')])) cur =
     (if cur = [] then [] else [cur]) @ replicate k ''.''"
proof (induction k arbitrary: cur)
  case 0
  then show ?case by simp
next
  case (Suc k)
  have sp: "unicode_IsSpace 0x20" and dt: "\<not> unicode_IsSpace 0x2E"
    by (simp_all add: unicode_IsSpace_def)
  have "FieldsFunc_loop (concat (replicate (Suc k) [(0x20, '' ''), (0x2E, ''.'')])) cur
      = (if cur = [] then [] else [cur])
        @ FieldsFunc_loop (concat (replicate k [(0x20, '' ''), (0x2E, ''.'')])) ''.''"
    using sp dt by simp
  also have "\<dots> = (if cur = [] then [] else [cur]) @ [''.''] @ replicate k ''.''"
    by (simp add: Suc.IH)
  also have "[''.''] @ replicate k ''.'' = replicate (Suc k) ''.''" by simp
  finally show ?case .
qed

lemma Fields_dots_text: "Fields (dots_text k) = ''a'' # replicate k ''.''"
proof -
  have "runes (dots_text k) = (0x61, ''a'') # runes (concat (replicate k '' .''))"
    unfolding dots_text_def by (simp add: runes_ascii_Cons byte_def)
  moreover have "\<not> unicode_IsSpace 0x61" by (simp add: unicode_IsSpace_def)
  ultimately show ?thesis
    by (simp add: Fields_def runes_dots FieldsFunc_loop_dots)
qed

lemma set_dots_text: "set (dots_text k) \<subseteq> {CHR ''a'', CHR '' '', CHR ''.''}"
  by (auto simp: dots_text_def)

lemma ToLower_dots_text: "ToLower lower (dots_text k) = dots_text k"
proof -
  have a: "\<forall>c \<in> set (dots_text k). byte c < 0x80"
    using set_dots_text[of k] by (auto simp: byte_def)
  have b: "\<forall>c \<in> set (dots_text k). ascii_lower c = c"
    using set_dots_text[of k] by (auto simp: ascii_lower_def byte_def)
  have "map ascii_lower (dots_text k) = dots_text k" using b by (simp add: map_idI)
  then show ?thesis using a by (simp add: ToLower_def list_all_iff)
qed

lemma Trim_dot: "Trim ''.'' cutset = []"
  by (simp add: Trim_def cutset_def)

lemma Trim_a: "Trim ''a'' cutset = ''a''"
  by (simp add: Trim_def cutset_def)

lemma count_words_dots: "count_words (replicate k ''.'') m = m"
  by (induction k) (simp_all add: Trim_dot)

lemma count_words_dots_text: "count_words (''a'' # replicate k ''.'') [] = [(''a'', 1)]"
  by (simp add: Trim_a count_words_dots)

lemma accumulate_fold: "accumulate m n embedding = fold (add_word n) m embedding"
  by (induction m arbitrary: embedding) (auto simp: add_word_def Let_def)

lemma update_add_commute:
  "(xs[p := xs ! p + a])[q := (xs[p := xs ! p + a]) ! q + b] =
   (xs[q := xs ! q + b])[p := (xs[q := xs ! q + b]) ! p + (a :: rat)]"
proof (cases "p = q")
  case False
  then show ?thesis by (simp add: list_update_swap)
next
  case True
  show ?thesis
  proof (cases "p < length xs")
    case True
    then show ?thesis using \<open>p = q\<close> by (simp add: add.commute add.left_commute)
  next
    case False
    then show ?thesis using \<open>p = q\<close> by (simp add: list_update_beyond)
  qed
qed

lemma add_word_commute: "add_word n a \<circ> add_word n b = add_word n b \<circ> add_word n a"
  by (rule ext) (simp add: add_word_def Let_def update_add_commute)

text \<open>
  In exact arithmetic the buckets do not depend on the order in which the word counts are
  visited.
\<close>

lemma accumulate_order_irrelevant:
  "mset m = mset m' \<Longrightarrow> accumulate m n embedding = accumulate m' n embedding"
proof -
  assume "mset m = mset m'"
  then have "fold (add_word n) m = fold (add_word n) m'"
    by (intro fold_multiset_equiv add_word_commute)
  then show ?thesis by (simp add: accumulate_fold)
qed

lemma hash_a: "nat ((hash_loop (runes ''a'') 0 AND 0x7FFFFFFF) mod 128) = 97"
  by (simp add: runes_ascii_Cons byte_def i64_def)

lemma replicate_update:
  "i < n \<Longrightarrow> (replicate n x)[i := y] = replicate i x @ y # replicate (n - i - 1) x"
proof -
  assume "i < n"
  then have "(replicate n x)[i := y] = take i (replicate n x) @ y # drop (Suc i) (replicate n x)"
    by (simp add: upd_conv_take_nth_drop)
  then show ?thesis using \<open>i < n\<close> by simp
qed

lemma sum_squares_eq: "sum_squares xs n = n + (\<Sum>x \<leftarrow> xs. x * x)"
  by (induction xs arbitrary: n) (simp_all add: algebra_simps)

lemma embedding_dots_text:
  "generateSimpleEmbedding e (dots_text k) =
     map (\<lambda>v. v / sqrt_f32 ((1 / of_nat (Suc k)) * (1 / of_nat (Suc k))))
       (replicate 97 0 @ (1 / of_nat (Suc k)) # replicate 30 0)"
proof -
  let ?v = "1 / of_nat (Suc k) :: rat"
  have acc: "accumulate [(''a'', 1)] (len (''a'' # replicate k ''.'')) (replicate 128 0)
      = replicate 97 0 @ ?v # replicate 30 0"
    using replicate_update[of 97 128 "0 :: rat" ?v]
    by (simp add: hash_a len_def del: of_nat_Suc)
  have sq: "sum_squares (replicate 97 0 @ ?v # replicate 30 0) 0 = ?v * ?v"
    by (simp add: sum_squares_eq sum_list_replicate del: of_nat_Suc)
  have pos: "0 < ?v * ?v" by simp
  show ?thesis
    unfolding generateSimpleEmbedding_def Let_def ToLower_dots_text Fields_dots_text
      count_words_dots_text acc sq
    using pos by (simp del: of_nat_Suc)
qed

text \<open>
  Claim C6 (the code departs from it). For the text made of the word \<open>a\<close> followed by
  2047 tokens \<open>.\<close> the vector returned by the local embedder has squared L2 norm at most
  \<open>1 / 4\<close>, so its norm is at most \<open>1 / 2\<close> and not about \<open>1\<close>.
\<close>

theorem embedding_norm_small:
  "(\<Sum>x \<leftarrow> generateSimpleEmbedding e (''a'' @ concat (replicate 2047 '' .'')). x * x) \<le> 1 / 4"
proof -
  let ?v = "1 / of_nat (Suc 2047) :: rat"
  let ?s = "sqrt_f32 (?v * ?v)"
  have v: "?v = 1 / 2048" by simp
  have s: "1 / 1024 \<le> ?s" by (rule sqrt_f32_lower_small) simp
  then have spos: "0 < ?s" by simp
  have "(1 / 1024) * (1 / 1024) \<le> ?s * ?s" using s by (intro mult_mono) auto
  then have ss: "1 / 1048576 \<le> ?s * ?s" by simp
  have "(\<Sum>x \<leftarrow> generateSimpleEmbedding e (dots_text 2047). x * x) = (?v / ?s) * (?v / ?s)"
    unfolding embedding_dots_text by (simp add: sum_list_replicate o_def del: of_nat_Suc)
  also have "\<dots> = (?v * ?v) / (?s * ?s)" by simp
  also have "\<dots> \<le> (?v * ?v) / (1 / 1048576)"
    using ss by (intro divide_left_mono) (auto simp del: of_nat_Suc)
  also have "\<dots> = 1 / 4" unfolding v by simp
  finally show ?thesis by (simp add: dots_text_def)
qed

subsection \<open>Batch embedding\<close>

lemma length_run_goroutines [simp]:
  "length (run_goroutines e texts schedule embeddings) = length embeddings"
  by (induction schedule arbitrary: embeddings) simp_all

lemma run_goroutines_untouched:
  "i \<notin> set schedule \<Longrightarrow> run_goroutines e texts schedule embeddings ! i = embeddings ! i"
  by (induction schedule arbitrary: embeddings) auto

lemma run_goroutines_written:
  "i \<in> set schedule \<Longrightarrow> i < length embeddings \<Longrightarrow>
   run_goroutines e texts schedule embeddings ! i = generateSimpleEmbedding e (texts ! i)"
proof (induction schedule arbitrary: embeddings)
  case Nil
  then show ?case by simp
next
  case (Cons idx schedule)
  show ?case
  proof (cases "i \<in> set schedule")
    case True
    then show ?thesis using Cons.IH[of "embeddings[idx := generateSimpleEmbedding e (texts ! idx)]"]
        Cons.prems(2) by simp
  next
    case False
    then have "i = idx" using Cons.prems(1) by simp
    then show ?thesis using False Cons.prems(2) by (simp add: run_goroutines_untouched)
  qed
qed

lemma run_goroutines_all:
  assumes "set schedule = {0..<length texts}"
  shows "run_goroutines e texts schedule (replicate (length texts) []) =
         map (generateSimpleEmbedding e) texts"
proof (rule nth_equalityI)
  show "length (run_goroutines e texts schedule (replicate (length texts) [])) =
        length (map (generateSimpleEmbedding e) texts)" by simp
next
  fix i assume "i < length (run_goroutines e texts schedule (replicate (length texts) []))"
  then have i: "i < length texts" by simp
  then have "i \<in> set schedule" using assms by simp
  then show "run_goroutines e texts schedule (replicate (length texts) []) ! i =
        map (generateSimpleEmbedding e) texts ! i"
    using i by (simp add: run_goroutines_written)
qed

lemma GenerateEmbeddings_loop_simple:
  "Model e = ''simple'' \<Longrightarrow> i + length texts \<le> length embeddings \<Longrightarrow>
   GenerateEmbeddings_loop e texts i embeddings =
     Inr (take i embeddings @ map (generateSimpleEmbedding e) texts
          @ drop (i + length texts) embeddings)"
proof (induction texts arbitrary: i embeddings)
  case Nil
  then show ?case by simp
next
  case (Cons t texts)
  let ?g = "generateSimpleEmbedding e"
  let ?embs = "embeddings[i := ?g t]"
  have i: "i < length embeddings" using Cons.prems(2) by simp
  have "GenerateEmbeddings_loop e (t # texts) i embeddings =
        GenerateEmbeddings_loop e texts (i + 1) ?embs"
    using Cons.prems(1) by (simp add: GenerateEmbedding_def)
  also have "\<dots> = Inr (take (i + 1) ?embs @ map ?g texts @ drop (i + 1 + length texts) ?embs)"
    using Cons.prems by (intro Cons.IH) auto
  also have "take (i + 1) ?embs = take i embeddings @ [?g t]"
    using i by (simp add: take_Suc_conv_app_nth)
  also have "drop (i + 1 + length texts) ?embs = drop (i + length (t # texts)) embeddings"
    by simp
  finally show ?case by simp
qed

lemma GenerateEmbeddings_simple:
  "Model e = ''simple'' \<Longrightarrow> GenerateEmbeddings e texts = Inr (map (generateSimpleEmbedding e) texts)"
  by (simp add: GenerateEmbeddings_def GenerateEmbeddings_loop_simple)

text \<open>
  For a non-empty list of texts and the local variant, the batch returns one vector per
  text, in input order, whatever the order in which the concurrent units complete
  (\<open>schedule\<close> is that order: any list that names every index), and it equals the
  sequential \<open>GenerateEmbeddings\<close>.
\<close>

theorem batch_equals_sequential:
  assumes "Model e = ''simple''" "texts \<noteq> []" "set schedule = {0..<length texts}"
  shows "GenerateEmbeddingsBatch e texts batchSize schedule =
           Inr (map (generateSimpleEmbedding e) texts) \<and>
         GenerateEmbeddingsBatch e texts batchSize schedule = GenerateEmbeddings e texts"
  using assms by (simp add: GenerateEmbeddingsBatch_def run_goroutines_all GenerateEmbeddings_simple)

text \<open>
  Claim C8 (the code departs from it). For the empty list of texts and the local variant
  the batch does not return zero vectors: the average in its last log line divides by
  \<open>len(texts)\<close>, which panics.
\<close>

theorem batch_empty_panics:
  "GenerateEmbeddingsBatch example_embedder [] 1 [] = Inl IntegerDivideByZero"
  by (simp add: GenerateEmbeddingsBatch_def example_embedder_def)

subsection \<open>The default top-K of the query handler\<close>




end
